theory Spec2Isabelle
  imports Main
begin

section \<open>Values, objects and the store\<close>

text \<open>
  The module \<^verbatim>\<open>lib/tools.js\<close> works on JavaScript objects by reference: \<^verbatim>\<open>walk\<close> fills
  a tree object in place and \<^verbatim>\<open>promisify\<close> reassigns properties of a live instance.
  Objects therefore live in a store, a list indexed by address; allocation appends.

  An object has own properties in enumeration order, each with its \<^emph>\<open>enumerable\<close>
  flag (\<^verbatim>\<open>Object.keys\<close> lists the enumerable ones only), a prototype link and a kind: a
  plain object, a function with the closure it runs, or a promise with its state.
  All properties are writable data properties and all objects are extensible. A
  prototype link is followed only towards an older object (a smaller address), which is
  how \<^verbatim>\<open>new\<close> and \<^verbatim>\<open>Object.create\<close> build chains, so that lookup terminates.

  \<^verbatim>\<open>Error\<close> objects are values here (\<open>Error msg\<close> for \<^verbatim>\<open>new Error(msg)\<close>, \<open>TypeError\<close>
  for the error the engine raises): the module never reads or writes their properties, and
  an error used as a live instance is left out. Numbers are integers: nothing here
  computes with them.
\<close>

type_synonym addr = nat

datatype jsval =
    Undefined
  | Null
  | JBool bool
  | JNum int
  | JStr string
  | Ref addr
  | Error string
  | TypeError

text \<open>
  The functions the module creates are closures over their free variables:
  \<^item> \<open>Wrapper fn client wrapCallback\<close>: the function of lines 90--100;
  \<^item> \<open>Appender args fn client\<close>: the function of lines 96--99, with the array \<^verbatim>\<open>args\<close> it
    pushes to;
  \<^item> \<open>Settler p\<close>: the function of lines 66--69, with the \<^verbatim>\<open>resolve\<close> and \<^verbatim>\<open>reject\<close> of
    promise \<open>p\<close>.
  \<open>Host i\<close> is a function written elsewhere (an operation of the client, a caller's
  callback); what it does is a parameter of the model.
  The variable \<^verbatim>\<open>wrapCallback\<close> holds either the module's own \<^verbatim>\<open>fromCallback\<close> or the
  value the caller supplied.
\<close>

datatype adapter = FromCallback | Custom jsval

datatype closure =
    Host nat
  | Wrapper jsval jsval adapter
  | Appender "jsval list" jsval jsval
  | Settler addr

datatype pstate = Pending | Resolved jsval | Rejected jsval

datatype okind = Plain | Function closure | Promise pstate

record jsobj =
  props :: "(string \<times> jsval \<times> bool) list"
  proto :: jsval
  kind :: okind

type_synonym heap = "jsobj list"

datatype 'a res = Ok 'a | Throw jsval

text \<open>
  A computation takes the store and gives a completion (a value, or a thrown value)
  with the new store; \<open>None\<close> stands for a run that does not come back within the
  given call depth.
\<close>

type_synonym 'a comp = "heap \<Rightarrow> ('a res \<times> heap) option"

type_synonym invoker = "jsval \<Rightarrow> jsval \<Rightarrow> jsval list \<Rightarrow> jsval comp"

text \<open>
  What lies outside the module: the behaviour of host functions (given the means to
  call other functions, the \<^verbatim>\<open>this\<close> value and the arguments), property reads and
  \<^verbatim>\<open>Object.keys\<close> on primitive values, and the conversion of a non-string value to a
  property name.
\<close>

record env =
  host :: "invoker \<Rightarrow> nat \<Rightarrow> jsval \<Rightarrow> jsval list \<Rightarrow> jsval comp"
  prim_get :: "jsval \<Rightarrow> string \<Rightarrow> jsval"
  prim_keys :: "jsval \<Rightarrow> string list"
  to_key :: "jsval \<Rightarrow> string"

definition ret :: "'a \<Rightarrow> 'a comp" where
  "ret x = (\<lambda>h. Some (Ok x, h))"

definition throw :: "jsval \<Rightarrow> 'a comp" where
  "throw e = (\<lambda>h. Some (Throw e, h))"

definition bnd :: "'a comp \<Rightarrow> ('a \<Rightarrow> 'b comp) \<Rightarrow> 'b comp" where
  "bnd m f = (\<lambda>h. case m h of
       None \<Rightarrow> None
     | Some (Throw e, h') \<Rightarrow> Some (Throw e, h')
     | Some (Ok x, h') \<Rightarrow> f x h')"

subsection \<open>Truthiness, property names, arguments\<close>

fun truthy :: "jsval \<Rightarrow> bool" where
  "truthy Undefined = False"
| "truthy Null = False"
| "truthy (JBool b) = b"
| "truthy (JNum n) = (n \<noteq> 0)"
| "truthy (JStr s) = (s \<noteq> [])"
| "truthy (Ref a) = True"
| "truthy (Error m) = True"
| "truthy TypeError = True"

definition arg :: "jsval list \<Rightarrow> nat \<Rightarrow> jsval" where
  "arg args i = (if i < length args then args ! i else Undefined)"

definition key_of :: "env \<Rightarrow> jsval \<Rightarrow> string" where
  "key_of env v = (case v of JStr s \<Rightarrow> s | _ \<Rightarrow> to_key env v)"

text \<open>\<^verbatim>\<open>key.match(/^[a-z]+/)\<close> and \<^verbatim>\<open>key.match(/^[A-Z]+/)\<close>: the first character decides.\<close>

definition lower_char :: "char \<Rightarrow> bool" where
  "lower_char c = (97 \<le> (of_char c :: nat) \<and> (of_char c :: nat) \<le> 122)"

definition upper_char :: "char \<Rightarrow> bool" where
  "upper_char c = (65 \<le> (of_char c :: nat) \<and> (of_char c :: nat) \<le> 90)"

definition lower_lead :: "string \<Rightarrow> bool" where
  "lower_lead key = (case key of [] \<Rightarrow> False | c # _ \<Rightarrow> lower_char c)"

definition upper_lead :: "string \<Rightarrow> bool" where
  "upper_lead key = (case key of [] \<Rightarrow> False | c # _ \<Rightarrow> upper_char c)"

text \<open>\<^verbatim>\<open>key.toLowerCase()\<close> on the ASCII names the convention is about.\<close>

definition to_lower_char :: "char \<Rightarrow> char" where
  "to_lower_char c = (if upper_char c then char_of ((of_char c :: nat) + 32) else c)"

definition toLowerCase :: "string \<Rightarrow> string" where
  "toLowerCase key = map to_lower_char key"

subsection \<open>Reading, writing and allocating\<close>

function getv_chain :: "heap \<Rightarrow> addr \<Rightarrow> string \<Rightarrow> jsval" where
  "getv_chain h a k =
     (if a < length h then
        (case map_of (props (h ! a)) k of
           Some (v, e) \<Rightarrow> v
         | None \<Rightarrow>
            (case proto (h ! a) of
               Ref b \<Rightarrow> (if b < a then getv_chain h b k else Undefined)
             | _ \<Rightarrow> Undefined))
      else Undefined)"
  by pat_completeness auto
termination
  by (relation "measure (\<lambda>(h, a, k). a)") auto

declare getv_chain.simps [simp del]

definition get :: "env \<Rightarrow> heap \<Rightarrow> jsval \<Rightarrow> string \<Rightarrow> jsval res" where
  "get env h v k =
     (case v of
        Undefined \<Rightarrow> Throw TypeError
      | Null \<Rightarrow> Throw TypeError
      | Ref a \<Rightarrow> Ok (getv_chain h a k)
      | _ \<Rightarrow> Ok (prim_get env v k))"

definition getp :: "env \<Rightarrow> jsval \<Rightarrow> string \<Rightarrow> jsval comp" where
  "getp env v k = (\<lambda>h. Some (get env h v k, h))"

fun upd_prop :: "string \<Rightarrow> jsval \<Rightarrow> (string \<times> jsval \<times> bool) list
    \<Rightarrow> (string \<times> jsval \<times> bool) list" where
  "upd_prop k x [] = [(k, x, True)]"
| "upd_prop k x ((k', v, e) # ps) =
     (if k = k' then (k', x, e) # ps else (k', v, e) # upd_prop k x ps)"

text \<open>
  Assignment in strict mode (the module starts with \<^verbatim>\<open>'use strict'\<close>): a property of
  \<^verbatim>\<open>undefined\<close>, \<^verbatim>\<open>null\<close> or a primitive cannot be set.
\<close>

definition hput :: "heap \<Rightarrow> addr \<Rightarrow> string \<Rightarrow> jsval \<Rightarrow> heap" where
  "hput h a k x = h[a := (h ! a)\<lparr>props := upd_prop k x (props (h ! a))\<rparr>]"

definition putp :: "jsval \<Rightarrow> string \<Rightarrow> jsval \<Rightarrow> unit comp" where
  "putp v k x = (\<lambda>h. case v of
       Ref a \<Rightarrow> Some (Ok (), hput h a k x)
     | _ \<Rightarrow> Some (Throw TypeError, h))"

definition alloc :: "jsobj \<Rightarrow> jsval comp" where
  "alloc ob = (\<lambda>h. Some (Ok (Ref (length h)), h @ [ob]))"

text \<open>An object literal \<^verbatim>\<open>{ k1: v1, ... }\<close>.\<close>

definition literal :: "(string \<times> jsval) list \<Rightarrow> jsval comp" where
  "literal kvs = alloc \<lparr>props = map (\<lambda>(k, v). (k, v, True)) kvs, proto = Null, kind = Plain\<rparr>"

definition new_function :: "closure \<Rightarrow> jsval comp" where
  "new_function c = alloc \<lparr>props = [], proto = Null, kind = Function c\<rparr>"

definition own_keys :: "jsobj \<Rightarrow> string list" where
  "own_keys ob = map fst (filter (\<lambda>(k, v, e). e) (props ob))"

definition object_keys :: "env \<Rightarrow> jsval \<Rightarrow> string list comp" where
  "object_keys env v = (\<lambda>h. case v of
       Undefined \<Rightarrow> Some (Throw TypeError, h)
     | Null \<Rightarrow> Some (Throw TypeError, h)
     | Ref a \<Rightarrow> Some (Ok (if a < length h then own_keys (h ! a) else []), h)
     | _ \<Rightarrow> Some (Ok (prim_keys env v), h))"

text \<open>\<^verbatim>\<open>Array.prototype.forEach\<close>: the callback runs on each element in turn; a throw ends the loop.\<close>

fun forEach :: "('a \<Rightarrow> 'b comp) \<Rightarrow> 'a list \<Rightarrow> unit comp" where
  "forEach f [] = ret ()"
| "forEach f (x # xs) = bnd (f x) (\<lambda>_. forEach f xs)"

definition is_function :: "heap \<Rightarrow> jsval \<Rightarrow> bool" where
  "is_function h v =
     (case v of
        Ref a \<Rightarrow> a < length h \<and> (case kind (h ! a) of Function c \<Rightarrow> True | _ \<Rightarrow> False)
      | _ \<Rightarrow> False)"

definition closure_of :: "heap \<Rightarrow> jsval \<Rightarrow> closure option" where
  "closure_of h v =
     (case v of
        Ref a \<Rightarrow> (if a < length h then (case kind (h ! a) of Function c \<Rightarrow> Some c | _ \<Rightarrow> None) else None)
      | _ \<Rightarrow> None)"

section \<open>walk (lines 11--57)\<close>

text \<open>The statements of the two loop bodies, for the map \<open>k\<close> (\<^verbatim>\<open>methods\<close> or \<^verbatim>\<open>objects\<close>).\<close>

text \<open>\<^verbatim>\<open>if (!tree.k) tree.k = {};\<close>\<close>

definition ensure_map :: "env \<Rightarrow> jsval \<Rightarrow> string \<Rightarrow> unit comp" where
  "ensure_map env tree k =
     bnd (getp env tree k) (\<lambda>m0.
     if \<not> truthy m0 then bnd (literal []) (\<lambda>m. putp tree k m) else ret ())"

text \<open>\<^verbatim>\<open>tree.k[key] = { name: key, value: v };\<close>\<close>

definition add_entry :: "env \<Rightarrow> jsval \<Rightarrow> string \<Rightarrow> string \<Rightarrow> jsval \<Rightarrow> unit comp" where
  "add_entry env tree k key v =
     bnd (getp env tree k) (\<lambda>m.
     bnd (literal [(''name'', JStr key), (''value'', v)]) (\<lambda>d.
     putp m key d))"

text \<open>\<^verbatim>\<open>var meta = obj.meta || {};\<close>\<close>

definition meta_of :: "env \<Rightarrow> jsval \<Rightarrow> jsval comp" where
  "meta_of env obj =
     bnd (getp env obj ''meta'') (\<lambda>mt.
     if truthy mt then ret mt else literal [])"

text \<open>\<^verbatim>\<open>tree.methods[key].type = meta[key] && meta[key].type || 'callback';\<close>\<close>

definition assign_type :: "env \<Rightarrow> jsval \<Rightarrow> jsval \<Rightarrow> string \<Rightarrow> unit comp" where
  "assign_type env tree meta key =
     bnd (getp env tree ''methods'') (\<lambda>m.
     bnd (getp env m key) (\<lambda>d.
     bnd (getp env meta key) (\<lambda>mk.
     bnd (if truthy mk then getp env mk ''type'' else ret mk) (\<lambda>ty.
     putp d ''type'' (if truthy ty then ty else JStr ''callback'')))))"

text \<open>The callback of the first loop, lines 26--40.\<close>

definition walk_method :: "env \<Rightarrow> jsval \<Rightarrow> jsval \<Rightarrow> string \<Rightarrow> unit comp" where
  "walk_method env obj tree key =
     bnd (getp env obj ''prototype'') (\<lambda>pr.
     bnd (getp env pr key) (\<lambda>v.
     if \<not> lower_lead key then ret ()
     else
       bnd (ensure_map env tree ''methods'') (\<lambda>_.
       bnd (add_entry env tree ''methods'' key v) (\<lambda>_.
       bnd (meta_of env obj) (\<lambda>meta.
       assign_type env tree meta key)))))"

text \<open>The callback of the second loop, lines 42--54; \<open>rec\<close> is the recursive call.\<close>

definition walk_object :: "(jsval list \<Rightarrow> jsval comp) \<Rightarrow> env \<Rightarrow> jsval \<Rightarrow> jsval \<Rightarrow> string \<Rightarrow> unit comp" where
  "walk_object rec env obj tree key =
     bnd (getp env obj key) (\<lambda>v.
     if \<not> upper_lead key then ret ()
     else
       bnd (ensure_map env tree ''objects'') (\<lambda>_.
       bnd (add_entry env tree ''objects'' key v) (\<lambda>_.
       bnd (getp env tree ''objects'') (\<lambda>os.
       bnd (getp env os key) (\<lambda>sub.
       bnd (rec [v, JStr key, sub]) (\<lambda>_. ret ()))))))"

text \<open>Lines 26--56, once \<^verbatim>\<open>tree\<close> is fixed.\<close>

definition walk_loops :: "(jsval list \<Rightarrow> jsval comp) \<Rightarrow> env \<Rightarrow> jsval \<Rightarrow> jsval \<Rightarrow> jsval comp" where
  "walk_loops rec env obj tree =
     bnd (getp env obj ''prototype'') (\<lambda>pr.
     bnd (object_keys env pr) (\<lambda>ks.
     bnd (forEach (walk_method env obj tree) ks) (\<lambda>_.
     bnd (object_keys env obj) (\<lambda>ks'.
     bnd (forEach (walk_object rec env obj tree) ks') (\<lambda>_.
     ret tree)))))"

text \<open>The switch on \<^verbatim>\<open>arguments.length\<close>, lines 12--24, then the loops.\<close>

definition walk_body :: "(jsval list \<Rightarrow> jsval comp) \<Rightarrow> env \<Rightarrow> jsval list \<Rightarrow> jsval comp" where
  "walk_body rec env args =
     (if length args = 1 then
        bnd (getp env (arg args 0) ''name'') (\<lambda>name.
        bnd (literal [(''name'', name)]) (\<lambda>tree.
        walk_loops rec env (arg args 0) tree))
      else if length args = 2 then
        bnd (literal [(''name'', arg args 1)]) (\<lambda>tree.
        walk_loops rec env (arg args 0) tree)
      else if length args = 3 then
        walk_loops rec env (arg args 0) (arg args 2)
      else throw (Error ''invalid arguments''))"

text \<open>The first argument bounds the depth of nested calls.\<close>

primrec walk :: "nat \<Rightarrow> env \<Rightarrow> jsval list \<Rightarrow> jsval comp" where
  "walk 0 env = (\<lambda>args h. None)"
| "walk (Suc n) env = walk_body (walk n env) env"

section \<open>fromCallback (lines 63--74)\<close>

definition settle :: "addr \<Rightarrow> pstate \<Rightarrow> heap \<Rightarrow> heap" where
  "settle p st h =
     (if p < length h \<and> kind (h ! p) = Promise Pending
      then h[p := (h ! p)\<lparr>kind := Promise st\<rparr>] else h)"

text \<open>
  The callback of lines 66--69. \<^verbatim>\<open>resolve\<close> and \<^verbatim>\<open>reject\<close> of a promise act once: on a
  settled promise they do nothing. The state \<open>Resolved v\<close> records that \<^verbatim>\<open>resolve(v)\<close> came first.
\<close>

definition settler :: "addr \<Rightarrow> jsval list \<Rightarrow> jsval comp" where
  "settler p args = (\<lambda>h.
     if truthy (arg args 0) then Some (Ok Undefined, settle p (Rejected (arg args 0)) h)
     else Some (Ok Undefined, settle p (Resolved (arg args 1)) h))"

text \<open>
  \<^verbatim>\<open>new Promise(executor)\<close> makes a pending promise and runs the executor at once; the
  executor calls \<^verbatim>\<open>fn\<close> with the callback and turns a throw into a rejection.
\<close>

definition fromCallback :: "invoker \<Rightarrow> jsval \<Rightarrow> jsval comp" where
  "fromCallback run fn =
     bnd (alloc \<lparr>props = [], proto = Null, kind = Promise Pending\<rparr>) (\<lambda>p.
     bnd (new_function (Settler (case p of Ref a \<Rightarrow> a | _ \<Rightarrow> 0))) (\<lambda>cb.
     (\<lambda>h. case run fn Undefined [cb] h of
        None \<Rightarrow> None
      | Some (Ok r, h') \<Rightarrow> Some (Ok p, h')
      | Some (Throw e, h') \<Rightarrow> Some (Ok p, settle (case p of Ref a \<Rightarrow> a | _ \<Rightarrow> 0) (Rejected e) h'))))"

section \<open>promisify (lines 80--112)\<close>

text \<open>The function of lines 96--99, living at address \<open>self\<close>: it pushes onto \<^verbatim>\<open>args\<close>.\<close>

definition appender :: "invoker \<Rightarrow> addr \<Rightarrow> jsval list \<Rightarrow> jsval \<Rightarrow> jsval \<Rightarrow> jsval list \<Rightarrow> jsval comp" where
  "appender run self args fn client cbargs = (\<lambda>h.
     run fn client (args @ [arg cbargs 0])
       (h[self := (h ! self)\<lparr>kind := Function (Appender (args @ [arg cbargs 0]) fn client)\<rparr>]))"

text \<open>The function of lines 90--100.\<close>

definition wrapper :: "invoker \<Rightarrow> jsval \<Rightarrow> jsval \<Rightarrow> adapter \<Rightarrow> jsval list \<Rightarrow> jsval comp" where
  "wrapper run fn client wrapCallback args = (\<lambda>h.
     if args \<noteq> [] \<and> is_function h (last args) then run fn client args h
     else
       bnd (new_function (Appender args fn client)) (\<lambda>f.
         case wrapCallback of
           FromCallback \<Rightarrow> fromCallback run f
         | Custom w \<Rightarrow> run w Undefined [f]) h)"

text \<open>Calling a value: \<^verbatim>\<open>f.apply(this, args)\<close>. A value that is not a function cannot be called.\<close>

primrec call :: "nat \<Rightarrow> env \<Rightarrow> invoker" where
  "call 0 env = (\<lambda>f this args h. None)"
| "call (Suc n) env = (\<lambda>f this args h.
     case closure_of h f of
       None \<Rightarrow> Some (Throw TypeError, h)
     | Some (Host i) \<Rightarrow> host env (call n env) i this args h
     | Some (Wrapper fn client wc) \<Rightarrow> wrapper (call n env) fn client wc args h
     | Some (Appender as fn client) \<Rightarrow>
         appender (call n env) (case f of Ref a \<Rightarrow> a | _ \<Rightarrow> 0) as fn client args h
     | Some (Settler p) \<Rightarrow> settler p args h)"

text \<open>The callback of the loop over \<^verbatim>\<open>tree.methods\<close>, lines 85--102.\<close>

definition patch_method :: "adapter \<Rightarrow> env \<Rightarrow> jsval \<Rightarrow> jsval \<Rightarrow> string \<Rightarrow> unit comp" where
  "patch_method wrapCallback env client tree key =
     bnd (getp env tree ''methods'') (\<lambda>ms.
     bnd (getp env ms key) (\<lambda>method.
     bnd (getp env method ''name'') (\<lambda>name.
     bnd (getp env client (key_of env name)) (\<lambda>fn.
     bnd (getp env method ''type'') (\<lambda>ty.
     if ty = JStr ''callback'' then
       bnd (getp env method ''name'') (\<lambda>name'.
       bnd (new_function (Wrapper fn client wrapCallback)) (\<lambda>w.
       putp client (key_of env name') w))
     else ret ())))))"

text \<open>The callback of the loop over \<^verbatim>\<open>tree.objects\<close>, lines 105--107.\<close>

definition patch_object :: "(jsval \<Rightarrow> jsval \<Rightarrow> unit comp) \<Rightarrow> env \<Rightarrow> jsval \<Rightarrow> jsval \<Rightarrow> string \<Rightarrow> unit comp" where
  "patch_object rec env client tree key =
     bnd (getp env client (toLowerCase key)) (\<lambda>sub.
     bnd (getp env tree ''objects'') (\<lambda>os.
     bnd (getp env os key) (\<lambda>subtree.
     rec sub subtree)))"

definition patch_body :: "(jsval \<Rightarrow> jsval \<Rightarrow> unit comp) \<Rightarrow> adapter \<Rightarrow> env \<Rightarrow> jsval \<Rightarrow> jsval \<Rightarrow> unit comp" where
  "patch_body rec wrapCallback env client tree =
     bnd (getp env tree ''methods'') (\<lambda>ms.
     bnd (object_keys env ms) (\<lambda>ks.
     bnd (forEach (patch_method wrapCallback env client tree) ks) (\<lambda>_.
     bnd (getp env tree ''objects'') (\<lambda>os.
     if truthy os then
       bnd (getp env tree ''objects'') (\<lambda>os'.
       bnd (object_keys env os') (\<lambda>ks'.
       forEach (patch_object rec env client tree) ks'))
     else ret ()))))"

primrec patch :: "nat \<Rightarrow> adapter \<Rightarrow> env \<Rightarrow> jsval \<Rightarrow> jsval \<Rightarrow> unit comp" where
  "patch 0 wrapCallback env = (\<lambda>client tree h. None)"
| "patch (Suc n) wrapCallback env = patch_body (patch n wrapCallback env) wrapCallback env"

definition promisify :: "nat \<Rightarrow> env \<Rightarrow> jsval \<Rightarrow> jsval \<Rightarrow> unit comp" where
  "promisify n env client wrapCallback =
     (if \<not> truthy client then throw (Error ''client required'')
      else
        bnd (getp env client ''constructor'') (\<lambda>ctor.
        bnd (walk n env [ctor]) (\<lambda>tree.
        patch n (if \<not> truthy wrapCallback then FromCallback else Custom wrapCallback) env client tree)))"

section \<open>An example: Outer with a nested Inner\<close>

text \<open>
  The store of the example: a constructor \<^verbatim>\<open>Outer\<close> (address 1) whose prototype
  (address 0) carries the operation \<^verbatim>\<open>list\<close>, with a nested constructor \<^verbatim>\<open>Inner\<close>
  (address 5) whose prototype (address 3) carries \<^verbatim>\<open>get\<close>; an instance of \<^verbatim>\<open>Inner\<close>
  (address 6) and an instance of \<^verbatim>\<open>Outer\<close> (address 7) that holds it under \<^verbatim>\<open>inner\<close>;
  and a caller's callback (address 8).

  Host function 1 (\<^verbatim>\<open>list\<close>) calls its last argument with \<^verbatim>\<open>(null, 42)\<close>; host
  function 2 (\<^verbatim>\<open>get\<close>) throws \<^verbatim>\<open>new Error('boom')\<close>; the others return \<^verbatim>\<open>undefined\<close>.
\<close>

definition ex_env :: env where
  "ex_env = \<lparr>
     host = (\<lambda>run i this args h.
       if i = 1 then
         (case run (arg args (length args - 1)) Undefined [Null, JNum 42] h of
            None \<Rightarrow> None
          | Some (Ok r, h') \<Rightarrow> Some (Ok Undefined, h')
          | Some (Throw e, h') \<Rightarrow> Some (Throw e, h'))
       else if i = 2 then Some (Throw (Error ''boom''), h)
       else Some (Ok Undefined, h)),
     prim_get = (\<lambda>v k. Undefined),
     prim_keys = (\<lambda>v. []),
     to_key = (\<lambda>v. []) \<rparr>"

definition ex_heap :: heap where
  "ex_heap = [
     \<lparr>props = [(''constructor'', Ref 1, False), (''list'', Ref 2, True)], proto = Null, kind = Plain\<rparr>,
     \<lparr>props = [(''name'', JStr ''Outer'', False), (''prototype'', Ref 0, False), (''Inner'', Ref 5, True)],
        proto = Null, kind = Function (Host 0)\<rparr>,
     \<lparr>props = [], proto = Null, kind = Function (Host 1)\<rparr>,
     \<lparr>props = [(''constructor'', Ref 5, False), (''get'', Ref 4, True)], proto = Null, kind = Plain\<rparr>,
     \<lparr>props = [], proto = Null, kind = Function (Host 2)\<rparr>,
     \<lparr>props = [(''name'', JStr ''Inner'', False), (''prototype'', Ref 3, False)],
        proto = Null, kind = Function (Host 0)\<rparr>,
     \<lparr>props = [], proto = Ref 3, kind = Plain\<rparr>,
     \<lparr>props = [(''inner'', Ref 6, True)], proto = Ref 0, kind = Plain\<rparr>,
     \<lparr>props = [], proto = Null, kind = Function (Host 0)\<rparr>]"

text \<open>
  The store after \<^verbatim>\<open>walk(Outer)\<close> (the tree is at address 9, the subtree of \<^verbatim>\<open>Inner\<close> at
  address 14), after \<^verbatim>\<open>promisify(outer)\<close>, and after patching one operation only.
\<close>

definition ex_walked :: heap where
  "ex_walked = (case walk 5 ex_env [Ref 1] ex_heap of Some (r, h) \<Rightarrow> h | None \<Rightarrow> [])"




text \<open>
  A definition none of whose operations starts with a lowercase letter, with an instance
  (address 3); and the first example with \<^verbatim>\<open>outer.inner\<close> missing.
\<close>

definition ex_bare :: heap where
  "ex_bare = [
     \<lparr>props = [(''constructor'', Ref 1, False), (''_request'', Ref 2, True)], proto = Null, kind = Plain\<rparr>,
     \<lparr>props = [(''name'', JStr ''Bare'', False), (''prototype'', Ref 0, False)],
        proto = Null, kind = Function (Host 0)\<rparr>,
     \<lparr>props = [], proto = Null, kind = Function (Host 0)\<rparr>,
     \<lparr>props = [], proto = Ref 0, kind = Plain\<rparr>]"

definition ex_missing :: heap where
  "ex_missing = ex_heap[7 := \<lparr>props = [], proto = Ref 0, kind = Plain\<rparr>]"

definition ex_missing_walked :: heap where
  "ex_missing_walked = (case walk 5 ex_env [Ref 1] ex_missing of Some (r, h) \<Rightarrow> h | None \<Rightarrow> [])"

definition ex_missing_patched :: heap where
  "ex_missing_patched =
     (case promisify 5 ex_env (Ref 7) Undefined ex_missing of Some (r, h) \<Rightarrow> h | None \<Rightarrow> [])"

section \<open>Notions used in the statements and proofs\<close>

text \<open>The value of an own property, \<^verbatim>\<open>undefined\<close> when there is none.\<close>

definition own :: "heap \<Rightarrow> addr \<Rightarrow> string \<Rightarrow> jsval" where
  "own h a k = (case map_of (props (h ! a)) k of Some (v, e) \<Rightarrow> v | None \<Rightarrow> Undefined)"

text \<open>
  The keys of the map that a tree node holds under \<open>k\<close> (\<^verbatim>\<open>methods\<close> or \<^verbatim>\<open>objects\<close>), as
  \<^verbatim>\<open>Object.keys\<close> lists them; none when the node has no such map.
\<close>

definition map_keys :: "string \<Rightarrow> heap \<Rightarrow> addr \<Rightarrow> string set" where
  "map_keys k h ta = (case own h ta k of Ref m \<Rightarrow> set (own_keys (h ! m)) | _ \<Rightarrow> {})"

text \<open>
  A well-formed definition of nesting depth at most \<open>d\<close>: an object of the store whose
  \<^verbatim>\<open>prototype\<close> is an object of the store, and whose enumerable own properties with a
  leading letter \<^verbatim>\<open>A-Z\<close> are again well-formed definitions, of depth at most \<open>d - 1\<close>.
\<close>

fun wf_def :: "nat \<Rightarrow> heap \<Rightarrow> jsval \<Rightarrow> bool" where
  "wf_def 0 h v = False"
| "wf_def (Suc d) h v =
     (case v of
        Ref a \<Rightarrow> a < length h \<and>
          (case getv_chain h a ''prototype'' of Ref p \<Rightarrow> p < length h | _ \<Rightarrow> False) \<and>
          list_all (\<lambda>k. upper_lead k \<longrightarrow> wf_def d h (getv_chain h a k)) (own_keys (h ! a))
      | _ \<Rightarrow> False)"

text \<open>
  A node as \<^verbatim>\<open>walk\<close> makes it before the loops run: an object without a prototype that has
  neither \<^verbatim>\<open>methods\<close> nor \<^verbatim>\<open>objects\<close>.
\<close>

definition node :: "heap \<Rightarrow> addr \<Rightarrow> bool" where
  "node h d \<longleftrightarrow> d < length h \<and> proto (h ! d) = Null \<and>
     map_of (props (h ! d)) ''methods'' = None \<and> map_of (props (h ! d)) ''objects'' = None"

text \<open>
  What a call of \<^verbatim>\<open>walk\<close> on the node \<open>d\<close> may change: new objects, and the properties
  \<^verbatim>\<open>methods\<close> and \<^verbatim>\<open>objects\<close> of \<open>d\<close>.
\<close>

definition walked :: "heap \<Rightarrow> addr \<Rightarrow> heap \<Rightarrow> bool" where
  "walked h d h' \<longleftrightarrow>
     length h \<le> length h' \<and>
     (\<forall>a<length h. a \<noteq> d \<longrightarrow> h' ! a = h ! a) \<and>
     proto (h' ! d) = proto (h ! d) \<and> kind (h' ! d) = kind (h ! d) \<and>
     (\<forall>k. k \<noteq> ''methods'' \<longrightarrow> k \<noteq> ''objects'' \<longrightarrow>
        map_of (props (h' ! d)) k = map_of (props (h ! d)) k)"

text \<open>
  The invariant of one loop, which fills the map \<open>k\<close> of the node \<open>ta\<close>, between the store
  \<open>h0\<close> at its start and the store \<open>h\<close> now: only \<open>ta\<close> and new objects differ, \<open>ta\<close>
  differs in its property \<open>k\<close> only, and that property, once set, is a new map whose
  properties are all enumerable.
\<close>

definition fresh_val :: "nat \<Rightarrow> nat \<Rightarrow> jsval \<Rightarrow> bool" where
  "fresh_val n0 n v = (case v of Undefined \<Rightarrow> True | Ref m \<Rightarrow> n0 \<le> m \<and> m < n | _ \<Rightarrow> False)"

definition all_enum :: "jsobj \<Rightarrow> bool" where
  "all_enum ob = list_all (\<lambda>(k, v, e). e) (props ob)"

definition frame :: "string \<Rightarrow> heap \<Rightarrow> addr \<Rightarrow> heap \<Rightarrow> bool" where
  "frame k h0 ta h \<longleftrightarrow>
     length h0 \<le> length h \<and> ta < length h0 \<and>
     (\<forall>a<length h0. a \<noteq> ta \<longrightarrow> h ! a = h0 ! a) \<and>
     proto (h ! ta) = Null \<and> proto (h0 ! ta) = Null \<and> kind (h ! ta) = kind (h0 ! ta) \<and>
     (\<forall>k'. k' \<noteq> k \<longrightarrow> map_of (props (h ! ta)) k' = map_of (props (h0 ! ta)) k') \<and>
     fresh_val (length h0) (length h) (own h ta k) \<and>
     (\<forall>m. own h ta k = Ref m \<longrightarrow> all_enum (h ! m))"

text \<open>The reads at the head of the first loop body succeed.\<close>

definition readable :: "env \<Rightarrow> heap \<Rightarrow> jsval \<Rightarrow> string \<Rightarrow> bool" where
  "readable env h obj key \<longleftrightarrow>
     (\<exists>pr v. get env h obj ''prototype'' = Ok pr \<and> get env h pr key = Ok v)"

text \<open>The recursive call keeps to \<open>walked\<close>; a computation throws nothing but \<^verbatim>\<open>TypeError\<close>.\<close>

definition rec_frames :: "(jsval list \<Rightarrow> jsval comp) \<Rightarrow> bool" where
  "rec_frames rec \<longleftrightarrow>
     (\<forall>v key d h r h'. rec [v, JStr key, Ref d] h = Some (r, h') \<longrightarrow> node h d \<longrightarrow> walked h d h')"

definition te_only :: "'a comp \<Rightarrow> bool" where
  "te_only m \<longleftrightarrow> (\<forall>h e h'. m h = Some (Throw e, h') \<longrightarrow> e = TypeError)"

section \<open>Facts about the store\<close>

lemma map_of_upd_prop: "map_of (upd_prop k x ps) k' =
   (if k' = k then Some (x, case map_of ps k of Some (v, e) \<Rightarrow> e | None \<Rightarrow> True) else map_of ps k')"
  by (induction k x ps rule: upd_prop.induct) auto

lemma length_hput [simp]: "length (hput h a k x) = length h"
  by (simp add: hput_def)

lemma nth_hput_other: "b \<noteq> a \<Longrightarrow> hput h a k x ! b = h ! b"
  by (simp add: hput_def)

lemma proto_hput [simp]: "proto (hput h a k x ! b) = proto (h ! b)"
  by (cases "a < length h"; cases "b = a") (simp_all add: hput_def list_update_beyond)

lemma kind_hput [simp]: "kind (hput h a k x ! b) = kind (h ! b)"
  by (cases "a < length h"; cases "b = a") (simp_all add: hput_def list_update_beyond)

lemma props_hput: "props (hput h a k x ! b) =
   (if b = a \<and> a < length h then upd_prop k x (props (h ! a)) else props (h ! b))"
  by (cases "a < length h"; cases "b = a") (simp_all add: hput_def list_update_beyond)

lemma getv_hput_same: "a < length h \<Longrightarrow> getv_chain (hput h a k x) a k = x"
  by (subst getv_chain.simps) (simp add: props_hput map_of_upd_prop)

lemma closure_of_hput [simp]: "closure_of (hput h a k x) v = closure_of h v"
  by (simp add: closure_of_def split: jsval.splits)

lemma is_function_hput [simp]: "is_function (hput h a k x) v = is_function h v"
  by (simp add: is_function_def split: jsval.splits)

lemma get_Ref [simp]: "get env h (Ref a) k = Ok (getv_chain h a k)"
  by (simp add: get_def)



lemma closure_of_append_new [simp]:
  "closure_of (h @ [\<lparr>props = ps, proto = pr, kind = Function cl\<rparr>]) (Ref (length h)) = Some cl"
  by (simp add: closure_of_def)


section \<open>Calls and promises\<close>

lemma settle_pending:
  "p < length h \<Longrightarrow> kind (h ! p) = Promise Pending \<Longrightarrow> kind (settle p st h ! p) = Promise st"
  by (simp add: settle_def)

lemma settle_settled:
  "kind (h ! p) \<noteq> Promise Pending \<Longrightarrow> settle p st h = h"
  by (simp add: settle_def)



text \<open>
  C8. \<^verbatim>\<open>promisify\<close> called with an absent or falsy instance throws
  \<^verbatim>\<open>Error('client required')\<close> to its caller, and the store is left as it was: nothing
  has been patched.
\<close>

theorem promisify_client_required:
  "\<not> truthy client \<Longrightarrow>
   promisify n env client wrapCallback h = Some (Throw (Error ''client required''), h)"
  by (simp add: promisify_def throw_def)

theorem promisify_client_required_witness:
  "\<not> truthy Undefined \<and>
   promisify 5 ex_env Undefined Undefined ex_heap = Some (Throw (Error ''client required''), ex_heap)"
  using promisify_client_required [of Undefined 5 ex_env Undefined ex_heap] by simp

text \<open>
  C6. When the function given to \<^verbatim>\<open>fromCallback\<close> throws \<open>e\<close> while the promise is still
  pending (it has not invoked the callback), \<^verbatim>\<open>fromCallback\<close> does not throw: it returns the
  promise, and the promise is rejected with \<open>e\<close>. The function is run by any means of
  calling \<open>run\<close>, on the store that holds the new promise and the new callback.
\<close>

theorem fromCallback_sync_throw:
  assumes "run fn Undefined [Ref (Suc (length h))]
             (h @ [\<lparr>props = [], proto = Null, kind = Promise Pending\<rparr>,
                   \<lparr>props = [], proto = Null, kind = Function (Settler (length h))\<rparr>])
           = Some (Throw e, h')"
    and "length h < length h'"
    and "kind (h' ! length h) = Promise Pending"
  shows "fromCallback run fn h = Some (Ok (Ref (length h)), settle (length h) (Rejected e) h') \<and>
         kind (settle (length h) (Rejected e) h' ! length h) = Promise (Rejected e)"
  using assms
  by (simp add: fromCallback_def bnd_def alloc_def new_function_def settle_pending)

theorem fromCallback_sync_throw_witness:
  "fromCallback (call 3 ex_env) (Ref 4) ex_heap =
     Some (Ok (Ref 9), ex_heap @ [\<lparr>props = [], proto = Null, kind = Promise (Rejected (Error ''boom''))\<rparr>,
                   \<lparr>props = [], proto = Null, kind = Function (Settler 9)\<rparr>])"
  using fromCallback_sync_throw [of "call 3 ex_env" "Ref 4" ex_heap "Error ''boom''"
       "ex_heap @ [\<lparr>props = [], proto = Null, kind = Promise Pending\<rparr>,
                   \<lparr>props = [], proto = Null, kind = Function (Settler 9)\<rparr>]"]
  by (simp add: ex_heap_def ex_env_def closure_of_def settle_def numeral_3_eq_3)








section \<open>The tree builder\<close>

lemma own_append: "a < length h \<Longrightarrow> own (h @ xs) a k = own h a k"
  by (simp add: own_def nth_append)

lemma own_hput: "own (hput h b k x) a k' =
   (if a = b \<and> b < length h \<and> k' = k then x else own h a k')"
  by (simp add: own_def props_hput map_of_upd_prop)

lemma fresh_val_add [simp]: "fresh_val n0 n v \<Longrightarrow> fresh_val n0 (n + k) v"
  by (auto simp: fresh_val_def split: jsval.splits)

lemma fresh_val_Suc [simp]: "fresh_val n0 n v \<Longrightarrow> fresh_val n0 (Suc n) v"
  by (auto simp: fresh_val_def split: jsval.splits)

lemma fresh_val_Ref [simp]: "fresh_val n0 n (Ref m) = (n0 \<le> m \<and> m < n)"
  by (simp add: fresh_val_def)

lemma fresh_val_cases:
  "fresh_val n0 n v \<Longrightarrow> v = Undefined \<or> (\<exists>m. v = Ref m \<and> n0 \<le> m \<and> m < n)"
  by (auto simp: fresh_val_def split: jsval.splits)

lemma getv_lit: "a < length h \<Longrightarrow> proto (h ! a) = Null \<Longrightarrow> getv_chain h a k = own h a k"
  by (subst getv_chain.simps) (simp add: own_def split: option.splits)

lemma getv_own: "a < length h \<Longrightarrow> map_of (props (h ! a)) k = Some (v, e) \<Longrightarrow> getv_chain h a k = v"
  by (subst getv_chain.simps) simp

lemma getv_append: "a < length h \<Longrightarrow> getv_chain (h @ xs) a k = getv_chain h a k"
proof (induction a rule: less_induct)
  case (less a)
  show ?case
    using less.prems less.IH
    by (subst getv_chain.simps, subst (2) getv_chain.simps)
       (simp add: nth_append split: option.splits jsval.splits)
qed

text \<open>The statements, run on a tree node.\<close>

lemma ensure_map_run:
  assumes "ta < length h" and "proto (h ! ta) = Null"
  shows "ensure_map env (Ref ta) k h =
     Some (Ok (), if truthy (own h ta k) then h
                  else hput (h @ [\<lparr>props = [], proto = Null, kind = Plain\<rparr>]) ta k (Ref (length h)))"
  using assms
  by (simp add: ensure_map_def bnd_def getp_def getv_lit literal_def alloc_def putp_def ret_def)

lemma add_entry_run:
  assumes "ta < length h" and "proto (h ! ta) = Null" and "own h ta k = Ref m"
  shows "add_entry env (Ref ta) k key v h =
     Some (Ok (), hput (h @ [\<lparr>props = [(''name'', JStr key, True), (''value'', v, True)],
                              proto = Null, kind = Plain\<rparr>]) m key (Ref (length h)))"
  using assms
  by (simp add: add_entry_def bnd_def getp_def getv_lit literal_def alloc_def putp_def)

lemma get_truthy: "truthy v \<Longrightarrow> \<exists>x. get env h v k = Ok x"
  by (cases v) (simp_all add: get_def)

lemma get_throw: "get env h v k = Throw e \<Longrightarrow> e = TypeError \<and> (v = Undefined \<or> v = Null)"
  by (cases v) (simp_all add: get_def)

lemma meta_of_run:
  "meta_of env obj h =
     (case get env h obj ''meta'' of
        Throw e \<Rightarrow> Some (Throw e, h)
      | Ok mt \<Rightarrow> if truthy mt then Some (Ok mt, h)
                 else Some (Ok (Ref (length h)), h @ [\<lparr>props = [], proto = Null, kind = Plain\<rparr>]))"
  by (simp add: meta_of_def bnd_def getp_def literal_def alloc_def ret_def split: res.splits)

lemma assign_type_run:
  assumes "ta < length h" and "proto (h ! ta) = Null" and "own h ta ''methods'' = Ref m"
    and "getv_chain h m key = Ref d" and "truthy meta"
  shows "\<exists>ty. assign_type env (Ref ta) meta key h = Some (Ok (), hput h d ''type'' ty)"
proof -
  obtain mk where mk: "get env h meta key = Ok mk"
    using get_truthy [OF assms(5)] by blast
  show ?thesis
  proof (cases "truthy mk")
    case True
    then obtain ty where "get env h mk ''type'' = Ok ty"
      using get_truthy by blast
    with True mk assms show ?thesis
      by (auto simp: assign_type_def bnd_def getp_def getv_lit putp_def)
  next
    case False
    with mk assms show ?thesis
      by (auto simp: assign_type_def bnd_def getp_def getv_lit putp_def ret_def)
  qed
qed

lemma all_enum_upd_prop: "list_all (\<lambda>(k, v, e). e) ps \<Longrightarrow> list_all (\<lambda>(k, v, e). e) (upd_prop k x ps)"
  by (induction k x ps rule: upd_prop.induct) auto

lemma all_enum_hput: "all_enum (h ! b) \<Longrightarrow> all_enum (hput h a k x ! b)"
  by (auto simp: all_enum_def props_hput all_enum_upd_prop)

lemma keys_upd_prop:
  "list_all (\<lambda>(k, v, e). e) ps \<Longrightarrow>
   set (map fst (filter (\<lambda>(k, v, e). e) (upd_prop k x ps))) = insert k (set (map fst (filter (\<lambda>(k, v, e). e) ps)))"
proof (induction k x ps rule: upd_prop.induct)
  case (1 k x)
  show ?case by simp
next
  case (2 k x k' v e ps)
  then show ?case by (cases "k = k'") auto
qed

lemma own_keys_hput:
  "a < length h \<Longrightarrow> all_enum (h ! a) \<Longrightarrow>
   set (own_keys (hput h a k x ! a)) = insert k (set (own_keys (h ! a)))"
  using keys_upd_prop [of "props (h ! a)" k x]
  by (simp add: own_keys_def props_hput all_enum_def)

lemma frame_lt: "frame k h0 ta h \<Longrightarrow> ta < length h"
  by (simp add: frame_def)

lemma frame_lt0: "frame k h0 ta h \<Longrightarrow> ta < length h0"
  by (simp add: frame_def)

lemma frame_le: "frame k h0 ta h \<Longrightarrow> length h0 \<le> length h"
  by (simp add: frame_def)

lemma frame_proto: "frame k h0 ta h \<Longrightarrow> proto (h ! ta) = Null"
  by (simp add: frame_def)

lemma frame_fresh: "frame k h0 ta h \<Longrightarrow> fresh_val (length h0) (length h) (own h ta k)"
  by (simp add: frame_def)

lemma frame_enum: "frame k h0 ta h \<Longrightarrow> own h ta k = Ref m \<Longrightarrow> all_enum (h ! m)"
  by (simp add: frame_def)

lemma frame_other: "frame k h0 ta h \<Longrightarrow> a < length h0 \<Longrightarrow> a \<noteq> ta \<Longrightarrow> h ! a = h0 ! a"
  by (simp add: frame_def)

lemma frame_refl: "ta < length h \<Longrightarrow> proto (h ! ta) = Null \<Longrightarrow> own h ta k = Undefined \<Longrightarrow> frame k h ta h"
  by (simp add: frame_def fresh_val_def)

lemma frame_append: "frame k h0 ta h \<Longrightarrow> frame k h0 ta (h @ xs)"
  unfolding frame_def
  by (auto simp: nth_append own_append dest: fresh_val_cases)

lemma frame_hput_fresh:
  "frame k h0 ta h \<Longrightarrow> length h0 \<le> a \<Longrightarrow> frame k h0 ta (hput h a k' x)"
  unfolding frame_def
  by (simp add: nth_hput_other own_hput all_enum_hput)

lemma frame_hput_map:
  "frame k h0 ta h \<Longrightarrow> length h0 \<le> m \<Longrightarrow> m < length h \<Longrightarrow> all_enum (h ! m) \<Longrightarrow>
   frame k h0 ta (hput h ta k (Ref m))"
  unfolding frame_def
  by (simp add: nth_hput_other props_hput map_of_upd_prop own_hput all_enum_hput)

lemma map_keys_append:
  "ta < length h \<Longrightarrow> fresh_val n0 (length h) (own h ta k) \<Longrightarrow> map_keys k (h @ xs) ta = map_keys k h ta"
  by (auto simp: map_keys_def own_append nth_append dest!: fresh_val_cases)

lemma map_keys_hput_other:
  "a \<noteq> ta \<Longrightarrow> own h ta k \<noteq> Ref a \<Longrightarrow> map_keys k (hput h a k' x) ta = map_keys k h ta"
  by (auto simp: map_keys_def own_hput nth_hput_other split: jsval.splits)

lemma ensure_map_frame:
  assumes "frame k h0 ta h"
  shows "\<exists>H m. ensure_map env (Ref ta) k h = Some (Ok (), H) \<and> frame k h0 ta H \<and>
           own H ta k = Ref m \<and> map_keys k H ta = map_keys k h ta \<and>
           (own h ta k = Undefined \<or> H = h)"
proof -
  note lt = frame_lt [OF assms] and pr = frame_proto [OF assms] and le = frame_le [OF assms]
  from fresh_val_cases [OF frame_fresh [OF assms]]
  show ?thesis
  proof
    assume u: "own h ta k = Undefined"
    let ?E = "\<lparr>props = [], proto = Null, kind = Plain\<rparr>"
    let ?H = "hput (h @ [?E]) ta k (Ref (length h))"
    have run: "ensure_map env (Ref ta) k h = Some (Ok (), ?H)"
      using ensure_map_run [OF lt pr, of env k] u by simp
    have fr: "frame k h0 ta ?H"
      using le by (intro frame_hput_map frame_append assms) (simp_all add: all_enum_def)
    have ow: "own ?H ta k = Ref (length h)"
      using lt by (simp add: own_hput)
    have "map_keys k ?H ta = {}"
      using lt by (simp add: map_keys_def ow nth_hput_other own_keys_def)
    moreover have "map_keys k h ta = {}"
      by (simp add: map_keys_def u)
    ultimately show ?thesis
      using run fr ow u by blast
  next
    assume "\<exists>m. own h ta k = Ref m \<and> length h0 \<le> m \<and> m < length h"
    then obtain m where m: "own h ta k = Ref m" by blast
    have "ensure_map env (Ref ta) k h = Some (Ok (), h)"
      using ensure_map_run [OF lt pr, of env k] m by simp
    with assms m show ?thesis by blast
  qed
qed

lemma add_entry_frame:
  assumes fr: "frame k h0 ta h" and m: "own h ta k = Ref m"
  shows "\<exists>H. add_entry env (Ref ta) k key v h = Some (Ok (), H) \<and> frame k h0 ta H \<and>
           own H ta k = Ref m \<and> getv_chain H m key = Ref (length h) \<and>
           length H = Suc (length h) \<and> node H (length h) \<and>
           map_keys k H ta = insert key (map_keys k h ta)"
proof -
  note lt = frame_lt [OF fr] and pr = frame_proto [OF fr] and le = frame_le [OF fr]
    and lt0 = frame_lt0 [OF fr]
  from frame_fresh [OF fr] m have mf: "length h0 \<le> m" "m < length h" by simp_all
  have en: "all_enum (h ! m)" by (rule frame_enum [OF fr m])
  let ?D = "\<lparr>props = [(''name'', JStr key, True), (''value'', v, True)], proto = Null, kind = Plain\<rparr>"
  let ?H = "hput (h @ [?D]) m key (Ref (length h))"
  have run: "add_entry env (Ref ta) k key v h = Some (Ok (), ?H)"
    by (rule add_entry_run [OF lt pr m])
  have fr': "frame k h0 ta ?H"
    using mf by (intro frame_hput_fresh frame_append fr)
  have ne: "ta \<noteq> m" using lt0 mf by simp
  have ow: "own ?H ta k = Ref m"
    using lt ne m by (simp add: own_hput own_append)
  have gv: "getv_chain ?H m key = Ref (length h)"
    using mf by (simp add: getv_hput_same)
  have nd: "node ?H (length h)"
    using mf by (simp add: node_def nth_hput_other)
  have "set (own_keys (?H ! m)) = insert key (set (own_keys ((h @ [?D]) ! m)))"
    using mf en by (intro own_keys_hput) (simp_all add: nth_append)
  then have mk: "map_keys k ?H ta = insert key (map_keys k h ta)"
    using mf by (simp add: map_keys_def ow m nth_append)
  show ?thesis
    using run fr' ow gv nd mk by simp
qed

lemma walk_method_throw1:
  "get env h obj ''prototype'' = Throw e \<Longrightarrow> walk_method env obj tree key h = Some (Throw e, h)"
  by (simp add: walk_method_def bnd_def getp_def)

lemma walk_method_throw2:
  "get env h obj ''prototype'' = Ok pr \<Longrightarrow> get env h pr key = Throw e \<Longrightarrow>
   walk_method env obj tree key h = Some (Throw e, h)"
  by (simp add: walk_method_def bnd_def getp_def)

lemma walk_method_skip:
  "get env h obj ''prototype'' = Ok pr \<Longrightarrow> get env h pr key = Ok v \<Longrightarrow> \<not> lower_lead key \<Longrightarrow>
   walk_method env obj tree key h = Some (Ok (), h)"
  by (simp add: walk_method_def bnd_def getp_def ret_def)

lemma get_Ok_any: "get env h v k = Ok x \<Longrightarrow> \<exists>y. get env h' v k' = Ok y"
  by (cases v) (simp_all add: get_def)

lemma walk_method_add:
  assumes fr: "frame ''methods'' h0 ta h"
    and p: "get env h obj ''prototype'' = Ok pr" and v: "get env h pr key = Ok v"
    and lc: "lower_lead key"
  shows "\<exists>H m. walk_method env obj (Ref ta) key h = Some (Ok (), H) \<and> frame ''methods'' h0 ta H \<and>
           own H ta ''methods'' = Ref m \<and>
           map_keys ''methods'' H ta = insert key (map_keys ''methods'' h ta)"
proof -
  obtain H1 m where e1: "ensure_map env (Ref ta) ''methods'' h = Some (Ok (), H1)"
    and f1: "frame ''methods'' h0 ta H1" and o1: "own H1 ta ''methods'' = Ref m"
    and k1: "map_keys ''methods'' H1 ta = map_keys ''methods'' h ta"
    using ensure_map_frame [OF fr, of env] by blast
  obtain H2 where e2: "add_entry env (Ref ta) ''methods'' key v H1 = Some (Ok (), H2)"
    and f2: "frame ''methods'' h0 ta H2" and o2: "own H2 ta ''methods'' = Ref m"
    and g2: "getv_chain H2 m key = Ref (length H1)" and l2: "length H2 = Suc (length H1)"
    and k2: "map_keys ''methods'' H2 ta = insert key (map_keys ''methods'' H1 ta)"
    using add_entry_frame [OF f1 o1, of env key v] by blast
  from frame_fresh [OF f2] o2 have mf: "length h0 \<le> m" "m < length H2" by simp_all
  from frame_fresh [OF f1] o1 have mf1: "m < length H1" by simp
  obtain mt where mt: "get env H2 obj ''meta'' = Ok mt"
    using get_Ok_any [OF p] by blast
  define H3 where "H3 = (if truthy mt then H2 else H2 @ [\<lparr>props = [], proto = Null, kind = Plain\<rparr>])"
  define meta where "meta = (if truthy mt then mt else Ref (length H2))"
  have e3: "meta_of env obj H2 = Some (Ok meta, H3)"
    by (simp add: meta_of_run mt H3_def meta_def)
  have tm: "truthy meta" by (simp add: meta_def)
  have f3: "frame ''methods'' h0 ta H3"
    using f2 by (simp add: H3_def frame_append)
  have o3: "own H3 ta ''methods'' = Ref m"
    using o2 frame_lt [OF f2] by (simp add: H3_def own_append)
  have g3: "getv_chain H3 m key = Ref (length H1)"
    using g2 mf by (simp add: H3_def getv_append)
  have k3: "map_keys ''methods'' H3 ta = map_keys ''methods'' H2 ta"
    using frame_lt [OF f2] frame_fresh [OF f2] by (simp add: H3_def map_keys_append)
  obtain ty where e4: "assign_type env (Ref ta) meta key H3 = Some (Ok (), hput H3 (length H1) ''type'' ty)"
    using assign_type_run [OF frame_lt [OF f3] frame_proto [OF f3] o3 g3 tm] by blast
  let ?H = "hput H3 (length H1) ''type'' ty"
  have d0: "length h0 \<le> length H1" by (rule frame_le [OF f1])
  have f4: "frame ''methods'' h0 ta ?H"
    using d0 by (intro frame_hput_fresh f3)
  have dt: "length H1 \<noteq> ta" using frame_lt [OF f1] by simp
  have o4: "own ?H ta ''methods'' = Ref m"
    using o3 dt by (simp add: own_hput)
  have k4: "map_keys ''methods'' ?H ta = map_keys ''methods'' H3 ta"
    using dt o3 mf1 by (intro map_keys_hput_other) simp_all
  have "walk_method env obj (Ref ta) key h = Some (Ok (), ?H)"
    using p v lc e1 e2 e3 e4 by (simp add: walk_method_def bnd_def getp_def)
  with f4 o4 k4 k3 k2 k1 show ?thesis by simp
qed

lemma getv_below:
  assumes "a < length h" and "a < length h'" and "\<forall>b\<le>a. h' ! b = h ! b"
  shows "getv_chain h' a k = getv_chain h a k"
  using assms
proof (induction a rule: less_induct)
  case (less a)
  have eq: "h' ! a = h ! a" using less.prems by simp
  show ?case
  proof (cases "map_of (props (h ! a)) k")
    case (Some ve)
    then show ?thesis
      using less.prems eq
      by (subst getv_chain.simps, subst (2) getv_chain.simps) (simp split: prod.splits)
  next
    case None
    show ?thesis
    proof (cases "\<exists>b. proto (h ! a) = Ref b \<and> b < a")
      case True
      then obtain b where b: "proto (h ! a) = Ref b" "b < a" by blast
      have "getv_chain h' b k = getv_chain h b k"
        using less.prems b by (intro less.IH) simp_all
      then show ?thesis
        using less.prems eq None b
        by (subst getv_chain.simps, subst (2) getv_chain.simps) simp
    next
      case False
      then show ?thesis
        using less.prems eq None
        by (subst getv_chain.simps, subst (2) getv_chain.simps) (auto split: jsval.splits)
    qed
  qed
qed

lemma getv_frame:
  assumes "frame k h0 ta h" and "a < ta"
  shows "getv_chain h a k' = getv_chain h0 a k'"
proof -
  have "a < length h0" using assms frame_lt0 [OF assms(1)] by simp
  moreover have "a < length h" using assms frame_lt [OF assms(1)] by simp
  moreover have "\<forall>b\<le>a. h ! b = h0 ! b"
    using assms frame_lt0 [OF assms(1)] by (auto intro: frame_other)
  ultimately show ?thesis by (intro getv_below) simp_all
qed

lemma walk_method_cases:
  assumes fr: "frame ''methods'' h0 ta h"
  shows "(\<not> readable env h obj key \<and> walk_method env obj (Ref ta) key h = Some (Throw TypeError, h)) \<or>
         (readable env h obj key \<and> \<not> lower_lead key \<and> walk_method env obj (Ref ta) key h = Some (Ok (), h)) \<or>
         (readable env h obj key \<and> lower_lead key \<and>
            (\<exists>H m. walk_method env obj (Ref ta) key h = Some (Ok (), H) \<and> frame ''methods'' h0 ta H \<and>
               own H ta ''methods'' = Ref m \<and>
               map_keys ''methods'' H ta = insert key (map_keys ''methods'' h ta)))"
proof (cases "get env h obj ''prototype''")
  case (Throw e)
  then show ?thesis
    using walk_method_throw1 [OF Throw] get_throw [OF Throw] by (simp add: readable_def)
next
  case (Ok pr)
  show ?thesis
  proof (cases "get env h pr key")
    case (Throw e)
    then show ?thesis
      using walk_method_throw2 [OF Ok Throw] get_throw [OF Throw] Ok by (simp add: readable_def)
  next
    case v: (Ok v)
    have r: "readable env h obj key" using Ok v by (auto simp: readable_def)
    show ?thesis
    proof (cases "lower_lead key")
      case True
      then show ?thesis using walk_method_add [OF fr Ok v True] r by simp
    next
      case False
      then show ?thesis using walk_method_skip [OF Ok v False] r by simp
    qed
  qed
qed

lemma walk_methods_loop:
  assumes "frame ''methods'' h0 ta h"
  shows "\<exists>r H. forEach (walk_method env obj (Ref ta)) ks h = Some (r, H) \<and>
           frame ''methods'' h0 ta H \<and>
           (r = Ok () \<or> r = Throw TypeError) \<and>
           (r = Ok () \<longrightarrow> map_keys ''methods'' H ta = map_keys ''methods'' h ta \<union> {k \<in> set ks. lower_lead k}) \<and>
           ((\<forall>k\<in>set ks. \<not> lower_lead k) \<longrightarrow> H = h) \<and>
           ((\<forall>h' k. frame ''methods'' h0 ta h' \<longrightarrow> readable env h' obj k) \<longrightarrow> r = Ok ())"
  using assms
proof (induction ks arbitrary: h)
  case Nil
  then show ?case by (simp add: ret_def)
next
  case (Cons k ks)
  from walk_method_cases [OF Cons.prems, of env obj k]
  consider (a) "\<not> readable env h obj k" "walk_method env obj (Ref ta) k h = Some (Throw TypeError, h)"
    | (b) "\<not> lower_lead k" "walk_method env obj (Ref ta) k h = Some (Ok (), h)"
    | (c) H where "lower_lead k" "walk_method env obj (Ref ta) k h = Some (Ok (), H)"
        "frame ''methods'' h0 ta H" "map_keys ''methods'' H ta = insert k (map_keys ''methods'' h ta)"
    by blast
  then show ?case
  proof cases
    case a
    then show ?thesis using Cons.prems by (auto simp: bnd_def)
  next
    case b
    from Cons.IH [OF Cons.prems] obtain r H where
      "forEach (walk_method env obj (Ref ta)) ks h = Some (r, H)"
      "frame ''methods'' h0 ta H" "r = Ok () \<or> r = Throw TypeError"
      "r = Ok () \<longrightarrow> map_keys ''methods'' H ta = map_keys ''methods'' h ta \<union> {k \<in> set ks. lower_lead k}"
      "(\<forall>k\<in>set ks. \<not> lower_lead k) \<longrightarrow> H = h"
      "(\<forall>h' k. frame ''methods'' h0 ta h' \<longrightarrow> readable env h' obj k) \<longrightarrow> r = Ok ()"
      by blast
    with b show ?thesis by (auto simp: bnd_def)
  next
    case c
    from Cons.IH [OF c(3)] obtain r H' where
      "forEach (walk_method env obj (Ref ta)) ks H = Some (r, H')"
      "frame ''methods'' h0 ta H'" "r = Ok () \<or> r = Throw TypeError"
      "r = Ok () \<longrightarrow> map_keys ''methods'' H' ta = map_keys ''methods'' H ta \<union> {k \<in> set ks. lower_lead k}"
      "(\<forall>h' k. frame ''methods'' h0 ta h' \<longrightarrow> readable env h' obj k) \<longrightarrow> r = Ok ()"
      by blast
    with c show ?thesis by (auto simp: bnd_def)
  qed
qed

lemma frame_walked:
  assumes fr: "frame k h0 ta h" and w: "walked h d h'" and d: "length h0 \<le> d" "d < length h"
    and nm: "own h ta k \<noteq> Ref d"
  shows "frame k h0 ta h'"
proof -
  have ta: "ta < length h0" "ta < length h" "ta \<noteq> d"
    using frame_lt0 [OF fr] frame_lt [OF fr] d by simp_all
  have eq: "\<And>a. a < length h \<Longrightarrow> a \<noteq> d \<Longrightarrow> h' ! a = h ! a"
    using w by (simp add: walked_def)
  have len: "length h \<le> length h'" using w by (simp add: walked_def)
  have teq: "h' ! ta = h ! ta" using eq ta by simp
  have ow: "own h' ta k = own h ta k" by (simp add: own_def teq)
  have "\<forall>m. own h' ta k = Ref m \<longrightarrow> all_enum (h' ! m)"
  proof (intro allI impI)
    fix m assume m: "own h' ta k = Ref m"
    then have m': "own h ta k = Ref m" by (simp add: ow)
    with frame_fresh [OF fr] have "m < length h" by simp
    moreover have "m \<noteq> d" using nm m' by auto
    ultimately have "h' ! m = h ! m" by (rule eq)
    then show "all_enum (h' ! m)" using frame_enum [OF fr m'] by simp
  qed
  moreover have "fresh_val (length h0) (length h') (own h' ta k)"
    using frame_fresh [OF fr] len by (auto simp: ow fresh_val_def split: jsval.splits)
  moreover have "\<forall>a<length h0. a \<noteq> ta \<longrightarrow> h' ! a = h0 ! a"
    using fr d eq by (auto simp: frame_def)
  ultimately show ?thesis
    using fr len by (simp add: frame_def teq)
qed

lemma map_keys_walked:
  assumes fr: "frame k h0 ta h" and w: "walked h d h'" and d: "length h0 \<le> d" "d < length h"
    and nm: "own h ta k \<noteq> Ref d"
  shows "map_keys k h' ta = map_keys k h ta"
proof -
  have ta: "ta < length h" "ta \<noteq> d"
    using frame_lt0 [OF fr] frame_lt [OF fr] d by simp_all
  have eq: "\<And>a. a < length h \<Longrightarrow> a \<noteq> d \<Longrightarrow> h' ! a = h ! a"
    using w by (simp add: walked_def)
  have teq: "h' ! ta = h ! ta" using eq ta by simp
  have ow: "own h' ta k = own h ta k" by (simp add: own_def teq)
  show ?thesis
  proof (cases "\<exists>m. own h ta k = Ref m")
    case True
    then obtain m where m: "own h ta k = Ref m" by blast
    with frame_fresh [OF fr] have "m < length h" by simp
    moreover have "m \<noteq> d" using nm m by auto
    ultimately have "h' ! m = h ! m" by (rule eq)
    then show ?thesis by (simp add: map_keys_def ow m)
  next
    case False
    then show ?thesis by (auto simp: map_keys_def ow split: jsval.splits)
  qed
qed

lemma walk_object_throw:
  "get env h obj key = Throw e \<Longrightarrow> walk_object rec env obj tree key h = Some (Throw e, h)"
  by (simp add: walk_object_def bnd_def getp_def)

lemma walk_object_skip:
  "get env h obj key = Ok v \<Longrightarrow> \<not> upper_lead key \<Longrightarrow>
   walk_object rec env obj tree key h = Some (Ok (), h)"
  by (simp add: walk_object_def bnd_def getp_def ret_def)

lemma walk_object_add:
  assumes fr: "frame ''objects'' h0 ta h"
    and v: "get env h obj key = Ok v" and uc: "upper_lead key"
  shows "\<exists>H d. frame ''objects'' h0 ta H \<and> node H d \<and> length h0 \<le> d \<and> own H ta ''objects'' \<noteq> Ref d \<and>
           map_keys ''objects'' H ta = insert key (map_keys ''objects'' h ta) \<and>
           walk_object rec env obj (Ref ta) key h = bnd (rec [v, JStr key, Ref d]) (\<lambda>_. ret ()) H"
proof -
  obtain H1 m where e1: "ensure_map env (Ref ta) ''objects'' h = Some (Ok (), H1)"
    and f1: "frame ''objects'' h0 ta H1" and o1: "own H1 ta ''objects'' = Ref m"
    and k1: "map_keys ''objects'' H1 ta = map_keys ''objects'' h ta"
    using ensure_map_frame [OF fr, of env] by blast
  obtain H2 where e2: "add_entry env (Ref ta) ''objects'' key v H1 = Some (Ok (), H2)"
    and f2: "frame ''objects'' h0 ta H2" and o2: "own H2 ta ''objects'' = Ref m"
    and g2: "getv_chain H2 m key = Ref (length H1)" and l2: "length H2 = Suc (length H1)"
    and n2: "node H2 (length H1)"
    and k2: "map_keys ''objects'' H2 ta = insert key (map_keys ''objects'' H1 ta)"
    using add_entry_frame [OF f1 o1, of env key v] by blast
  from frame_fresh [OF f1] o1 have mf1: "m < length H1" by simp
  have d0: "length h0 \<le> length H1" by (rule frame_le [OF f1])
  have gt: "getv_chain H2 ta ''objects'' = Ref m"
    using o2 by (simp add: getv_lit frame_lt [OF f2] frame_proto [OF f2])
  have "walk_object rec env obj (Ref ta) key h =
        bnd (rec [v, JStr key, Ref (length H1)]) (\<lambda>_. ret ()) H2"
    using v uc e1 e2 gt g2 by (simp add: walk_object_def bnd_def getp_def)
  moreover have "own H2 ta ''objects'' \<noteq> Ref (length H1)"
    using o2 mf1 by simp
  ultimately show ?thesis
    using f2 n2 d0 k2 k1 by blast
qed

lemma walk_objects_loop:
  assumes fr: "frame ''objects'' h0 ta h" and rc: "rec_frames rec"
    and run: "forEach (walk_object rec env obj (Ref ta)) ks h = Some (r, H)"
  shows "frame ''objects'' h0 ta H \<and>
         (r = Ok () \<longrightarrow> map_keys ''objects'' H ta = map_keys ''objects'' h ta \<union> {k \<in> set ks. upper_lead k})"
  using fr run
proof (induction ks arbitrary: h)
  case Nil
  then show ?case by (simp add: ret_def)
next
  case (Cons k ks)
  show ?case
  proof (cases "get env h obj k")
    case (Throw e)
    with Cons.prems walk_object_throw [OF Throw, of rec "Ref ta"] show ?thesis
      by (auto simp: bnd_def)
  next
    case (Ok v)
    show ?thesis
    proof (cases "upper_lead k")
      case False
      with Cons.prems walk_object_skip [OF Ok False, of rec "Ref ta"]
      have "forEach (walk_object rec env obj (Ref ta)) ks h = Some (r, H)"
        by (simp add: bnd_def)
      from Cons.IH [OF Cons.prems(1) this] False show ?thesis by auto
    next
      case True
      from walk_object_add [OF Cons.prems(1) Ok True, of rec]
      obtain H1 d where f1: "frame ''objects'' h0 ta H1" and n1: "node H1 d" and d0: "length h0 \<le> d"
        and nd: "own H1 ta ''objects'' \<noteq> Ref d"
        and k1: "map_keys ''objects'' H1 ta = insert k (map_keys ''objects'' h ta)"
        and e1: "walk_object rec env obj (Ref ta) k h = bnd (rec [v, JStr k, Ref d]) (\<lambda>_. ret ()) H1"
        by blast
      have dl: "d < length H1" using n1 by (simp add: node_def)
      show ?thesis
      proof (cases "rec [v, JStr k, Ref d] H1")
        case None
        with Cons.prems(2) e1 show ?thesis by (simp add: bnd_def)
      next
        case (Some rh)
        obtain r1 H2 where rh: "rh = (r1, H2)" by (cases rh)
        have w: "walked H1 d H2" using rc Some rh n1 by (auto simp: rec_frames_def)
        have f2: "frame ''objects'' h0 ta H2" by (rule frame_walked [OF f1 w d0 dl nd])
        have k2: "map_keys ''objects'' H2 ta = map_keys ''objects'' H1 ta"
          by (rule map_keys_walked [OF f1 w d0 dl nd])
        show ?thesis
        proof (cases r1)
          case (Throw e)
          with Cons.prems(2) e1 Some rh f2 show ?thesis by (auto simp: bnd_def)
        next
          case (Ok x)
          with Cons.prems(2) e1 Some rh
          have "forEach (walk_object rec env obj (Ref ta)) ks H2 = Some (r, H)"
            by (simp add: bnd_def ret_def)
          from Cons.IH [OF f2 this] k2 k1 True show ?thesis by auto
        qed
      qed
    qed
  qed
qed

lemma bnd_Some_cases:
  "bnd m f h = Some (r, H) \<Longrightarrow>
   (\<exists>e. m h = Some (Throw e, H) \<and> r = Throw e) \<or> (\<exists>x h1. m h = Some (Ok x, h1) \<and> f x h1 = Some (r, H))"
  by (auto simp: bnd_def split: option.splits res.splits prod.splits)

lemma object_keys_same: "object_keys env v h = Some (r, H) \<Longrightarrow> H = h"
  by (auto simp: object_keys_def split: jsval.splits)

lemma object_keys_Ref:
  "object_keys env (Ref a) h = Some (Ok (if a < length h then own_keys (h ! a) else []), h)"
  by (simp add: object_keys_def)

lemma walked_refl: "walked h d h"
  by (simp add: walked_def)

lemma frame_imp_walked:
  "frame k h ta H \<Longrightarrow> k = ''methods'' \<or> k = ''objects'' \<Longrightarrow> walked h ta H"
  by (auto simp: frame_def walked_def)

lemma node_frame: "node h ta \<Longrightarrow> k = ''methods'' \<or> k = ''objects'' \<Longrightarrow> frame k h ta h"
  by (auto simp: node_def own_def intro!: frame_refl)

lemma frame_objects_start:
  assumes "node h ta" and "frame ''methods'' h ta H"
  shows "frame ''objects'' H ta H"
proof -
  have "map_of (props (H ! ta)) ''objects'' = None"
    using assms by (simp add: frame_def node_def)
  then have "own H ta ''objects'' = Undefined" by (simp add: own_def)
  then show ?thesis
    using frame_lt [OF assms(2)] frame_proto [OF assms(2)] by (intro frame_refl)
qed

lemma walked_two:
  assumes "frame ''methods'' h ta H1" and "frame ''objects'' H1 ta H"
  shows "walked h ta H"
proof -
  have "\<forall>a<length h. a \<noteq> ta \<longrightarrow> H ! a = h ! a"
  proof (intro allI impI)
    fix a assume a: "a < length h" "a \<noteq> ta"
    then have "a < length H1" using frame_le [OF assms(1)] by simp
    then have "H ! a = H1 ! a" using a assms(2) by (simp add: frame_def)
    also have "H1 ! a = h ! a" using a assms(1) by (simp add: frame_def)
    finally show "H ! a = h ! a" .
  qed
  moreover have "\<forall>k. k \<noteq> ''methods'' \<longrightarrow> k \<noteq> ''objects'' \<longrightarrow>
      map_of (props (H ! ta)) k = map_of (props (h ! ta)) k"
    using assms by (simp add: frame_def)
  ultimately show ?thesis
    using assms by (simp add: frame_def walked_def)
qed

text \<open>What a run of the two loops on a fresh node leaves behind.\<close>

lemma walk_loops_run:
  assumes nd: "node h ta" and rc: "rec_frames rec"
    and run: "walk_loops rec env obj (Ref ta) h = Some (r, H)"
  shows "walked h ta H \<and>
     (\<forall>x. r = Ok x \<longrightarrow> x = Ref ta \<and>
        (\<exists>pr ks H1 ks'. get env h obj ''prototype'' = Ok pr \<and>
           object_keys env pr h = Some (Ok ks, h) \<and>
           frame ''methods'' h ta H1 \<and>
           object_keys env obj H1 = Some (Ok ks', H1) \<and>
           frame ''objects'' H1 ta H \<and>
           map_keys ''methods'' H1 ta = {k \<in> set ks. lower_lead k} \<and>
           map_keys ''objects'' H ta = {k \<in> set ks'. upper_lead k} \<and>
           ((\<forall>k\<in>set ks. \<not> lower_lead k) \<longrightarrow> H1 = h)))"
proof -
  note run' = run [unfolded walk_loops_def]
  from bnd_Some_cases [OF run'] show ?thesis
  proof (elim disjE exE conjE)
    fix e assume "getp env obj ''prototype'' h = Some (Throw e, H)" "r = Throw e"
    then show ?thesis by (simp add: getp_def walked_refl)
  next
    fix pr h1
    assume g: "getp env obj ''prototype'' h = Some (Ok pr, h1)"
      and rest: "bnd (object_keys env pr) (\<lambda>ks. bnd (forEach (walk_method env obj (Ref ta)) ks)
          (\<lambda>_. bnd (object_keys env obj) (\<lambda>ks'. bnd (forEach (walk_object rec env obj (Ref ta)) ks')
            (\<lambda>_. ret (Ref ta))))) h1 = Some (r, H)"
    from g have h1: "h1 = h" and gp: "get env h obj ''prototype'' = Ok pr" by (auto simp: getp_def)
    from bnd_Some_cases [OF rest] show ?thesis
    proof (elim disjE exE conjE)
      fix e assume "object_keys env pr h1 = Some (Throw e, H)" "r = Throw e"
      then show ?thesis using h1 by (auto simp: walked_refl dest!: object_keys_same)
    next
      fix ks h2
      assume k: "object_keys env pr h1 = Some (Ok ks, h2)"
        and rest2: "bnd (forEach (walk_method env obj (Ref ta)) ks)
          (\<lambda>_. bnd (object_keys env obj) (\<lambda>ks'. bnd (forEach (walk_object rec env obj (Ref ta)) ks')
            (\<lambda>_. ret (Ref ta)))) h2 = Some (r, H)"
      from k h1 have h2: "h2 = h" and kp: "object_keys env pr h = Some (Ok ks, h)"
        by (auto dest: object_keys_same)
      have f0: "frame ''methods'' h ta h" using nd by (simp add: node_frame)
      from walk_methods_loop [OF f0, of env obj ks] obtain r1 H1 where
        l1: "forEach (walk_method env obj (Ref ta)) ks h = Some (r1, H1)"
        and f1: "frame ''methods'' h ta H1"
        and k1: "r1 = Ok () \<longrightarrow> map_keys ''methods'' H1 ta = map_keys ''methods'' h ta \<union> {k \<in> set ks. lower_lead k}"
        and s1: "(\<forall>k\<in>set ks. \<not> lower_lead k) \<longrightarrow> H1 = h"
        by blast
      have mk0: "map_keys ''methods'' h ta = {}"
        using nd by (simp add: map_keys_def node_def own_def)
      from bnd_Some_cases [OF rest2] show ?thesis
      proof (elim disjE exE conjE)
        fix e assume "forEach (walk_method env obj (Ref ta)) ks h2 = Some (Throw e, H)" "r = Throw e"
        then show ?thesis using l1 h2 f1 by (auto intro: frame_imp_walked)
      next
        fix u h3
        assume l: "forEach (walk_method env obj (Ref ta)) ks h2 = Some (Ok u, h3)"
          and rest3: "bnd (object_keys env obj) (\<lambda>ks'. bnd (forEach (walk_object rec env obj (Ref ta)) ks')
            (\<lambda>_. ret (Ref ta))) h3 = Some (r, H)"
        from l l1 h2 have h3: "h3 = H1" and r1: "r1 = Ok ()" by simp_all
        have f2: "frame ''objects'' H1 ta H1" by (rule frame_objects_start [OF nd f1])
        from bnd_Some_cases [OF rest3] show ?thesis
        proof (elim disjE exE conjE)
          fix e assume "object_keys env obj h3 = Some (Throw e, H)" "r = Throw e"
          then show ?thesis using h3 f1 by (auto intro: frame_imp_walked dest!: object_keys_same)
        next
          fix ks' h4
          assume k': "object_keys env obj h3 = Some (Ok ks', h4)"
            and rest4: "bnd (forEach (walk_object rec env obj (Ref ta)) ks') (\<lambda>_. ret (Ref ta)) h4 = Some (r, H)"
          from k' h3 have h4: "h4 = H1" and ko: "object_keys env obj H1 = Some (Ok ks', H1)"
            by (auto dest: object_keys_same)
          have mo0: "map_keys ''objects'' H1 ta = {}"
            using nd f1 by (simp add: map_keys_def node_def own_def frame_def)
          from bnd_Some_cases [OF rest4] show ?thesis
          proof (elim disjE exE conjE)
            fix e assume l2: "forEach (walk_object rec env obj (Ref ta)) ks' h4 = Some (Throw e, H)" "r = Throw e"
            from walk_objects_loop [OF f2 rc l2(1) [unfolded h4]] have "frame ''objects'' H1 ta H" by simp
            with f1 l2 show ?thesis by (auto intro: walked_two)
          next
            fix u' h5
            assume l2: "forEach (walk_object rec env obj (Ref ta)) ks' h4 = Some (Ok u', h5)"
              and fin: "ret (Ref ta) h5 = Some (r, H)"
            from fin have r: "r = Ok (Ref ta)" and h5: "h5 = H" by (simp_all add: ret_def)
            from walk_objects_loop [OF f2 rc l2 [unfolded h4 h5]]
            have f3: "frame ''objects'' H1 ta H"
              and k3: "map_keys ''objects'' H ta = map_keys ''objects'' H1 ta \<union> {k \<in> set ks'. upper_lead k}"
              by simp_all
            have "walked h ta H" by (rule walked_two [OF f1 f3])
            moreover have "map_keys ''methods'' H1 ta = {k \<in> set ks. lower_lead k}"
              using k1 r1 mk0 by simp
            moreover have "map_keys ''objects'' H ta = {k \<in> set ks'. upper_lead k}"
              using k3 mo0 by simp
            ultimately show ?thesis
              using r gp kp f1 ko f3 s1 by blast
          qed
        qed
      qed
    qed
  qed
qed

lemma walk_frames: "rec_frames (walk n env)"
proof (induction n)
  case 0
  show ?case by (simp add: rec_frames_def)
next
  case (Suc n)
  show ?case
    unfolding rec_frames_def
  proof (intro allI impI)
    fix v key d h r h'
    assume run: "walk (Suc n) env [v, JStr key, Ref d] h = Some (r, h')" and nd: "node h d"
    from run have "walk_loops (walk n env) env v (Ref d) h = Some (r, h')"
      by (simp add: walk_body_def arg_def)
    from walk_loops_run [OF nd Suc this] show "walked h d h'" by simp
  qed
qed

lemma te_only_bnd: "te_only m \<Longrightarrow> (\<And>x. te_only (f x)) \<Longrightarrow> te_only (bnd m f)"
  by (auto simp: te_only_def bnd_def split: option.splits res.splits prod.splits)

lemma te_only_ret: "te_only (ret x)"
  by (simp add: te_only_def ret_def)

lemma te_only_getp: "te_only (getp env v k)"
  by (auto simp: te_only_def getp_def dest: get_throw)

lemma te_only_putp: "te_only (putp v k x)"
  by (auto simp: te_only_def putp_def split: jsval.splits)

lemma te_only_literal: "te_only (literal kvs)"
  by (simp add: te_only_def literal_def alloc_def)

lemma te_only_object_keys: "te_only (object_keys env v)"
  by (auto simp: te_only_def object_keys_def split: jsval.splits)

lemma te_only_if: "te_only m1 \<Longrightarrow> te_only m2 \<Longrightarrow> te_only (if c then m1 else m2)"
  by simp

lemma te_only_forEach: "(\<And>x. te_only (f x)) \<Longrightarrow> te_only (forEach f xs)"
  by (induction xs) (auto intro: te_only_bnd te_only_ret)

lemmas te_only_intros = te_only_bnd te_only_ret te_only_getp te_only_putp te_only_literal
  te_only_object_keys te_only_if te_only_forEach

lemma te_only_walk_method: "te_only (walk_method env obj tree key)"
  unfolding walk_method_def ensure_map_def add_entry_def meta_of_def assign_type_def
  by (intro te_only_intros)

lemma te_only_walk_loops:
  assumes "\<And>v key t. te_only (rec [v, key, t])"
  shows "te_only (walk_loops rec env obj tree)"
  unfolding walk_loops_def walk_object_def ensure_map_def add_entry_def
  by (intro te_only_intros te_only_walk_method assms)

lemma te_only_walk3: "te_only (walk n env [v, key, t])"
proof (induction n arbitrary: v key t)
  case 0
  show ?case by (simp add: te_only_def)
next
  case (Suc n)
  show ?case
    by (simp add: walk_body_def arg_def te_only_walk_loops Suc)
qed

lemma te_only_walk:
  assumes "length args = 1 \<or> length args = 2 \<or> length args = 3"
  shows "te_only (walk n env args)"
proof (cases n)
  case 0
  then show ?thesis by (simp add: te_only_def)
next
  case (Suc m)
  have "te_only (walk_loops (walk m env) env obj tree)" for obj tree
    by (intro te_only_walk_loops te_only_walk3)
  then show ?thesis
    using assms Suc by (auto simp: walk_body_def intro!: te_only_intros)
qed

text \<open>A call with one or two arguments makes its own node, then runs the loops on it.\<close>

lemma walk_fresh:
  assumes run: "walk (Suc n) env args h = Some (r, h')"
    and ar: "length args = 1 \<or> length args = 2"
  shows "(h' = h \<and> r = Throw TypeError) \<or>
     (\<exists>nm. (if length args = 1 then get env h (arg args 0) ''name'' = Ok nm else nm = arg args 1) \<and>
        walk_loops (walk n env) env (arg args 0) (Ref (length h))
          (h @ [\<lparr>props = [(''name'', nm, True)], proto = Null, kind = Plain\<rparr>]) = Some (r, h'))"
proof (cases "length args = 1")
  case True
  show ?thesis
  proof (cases "get env h (arg args 0) ''name''")
    case (Throw e)
    with run True get_throw [OF Throw] show ?thesis
      by (simp add: walk_body_def bnd_def getp_def)
  next
    case (Ok nm)
    with run True show ?thesis
      by (simp add: walk_body_def bnd_def getp_def literal_def alloc_def)
  qed
next
  case False
  with ar run show ?thesis
    by (simp add: walk_body_def bnd_def literal_def alloc_def)
qed

lemma node_fresh: "node (h @ [\<lparr>props = [(''name'', nm, True)], proto = Null, kind = Plain\<rparr>]) (length h)"
  by (simp add: node_def)




lemma walk_name:
  assumes run: "walk n env args h = Some (Ok t, h')"
    and ar: "length args = 1 \<or> length args = 2"
  shows "\<exists>nm. (if length args = 1 then get env h (arg args 0) ''name'' = Ok nm else nm = arg args 1) \<and>
           t = Ref (length h) \<and> get env h' t ''name'' = Ok nm"
proof (cases n)
  case 0
  with run show ?thesis by simp
next
  case (Suc m)
  from walk_fresh [OF run [unfolded Suc] ar] obtain nm where
    nm: "if length args = 1 then get env h (arg args 0) ''name'' = Ok nm else nm = arg args 1"
    and loops: "walk_loops (walk m env) env (arg args 0) (Ref (length h))
          (h @ [\<lparr>props = [(''name'', nm, True)], proto = Null, kind = Plain\<rparr>]) = Some (Ok t, h')"
    by auto
  let ?T = "\<lparr>props = [(''name'', nm, True)], proto = Null, kind = Plain\<rparr>"
  from walk_loops_run [OF node_fresh walk_frames loops]
  have w: "walked (h @ [?T]) (length h) h'" and t: "t = Ref (length h)" by simp_all
  from w have "length h < length h'" by (simp add: walked_def)
  moreover from w have "map_of (props (h' ! length h)) ''name'' = Some (nm, True)"
    by (simp add: walked_def)
  ultimately have "getv_chain h' (length h) ''name'' = nm" by (rule getv_own)
  with nm t show ?thesis by auto
qed

text \<open>
  C7. \<^verbatim>\<open>walk\<close> called with no argument or with more than three throws
  \<^verbatim>\<open>Error('invalid arguments')\<close>; called with one, two or three it never throws that error.
  With one argument the returned tree has the \<^verbatim>\<open>name\<close> of the definition, with two the
  name supplied.
\<close>

theorem walk_arity:
  "(length args \<noteq> 1 \<and> length args \<noteq> 2 \<and> length args \<noteq> 3 \<longrightarrow>
      walk (Suc n) env args h = Some (Throw (Error ''invalid arguments''), h)) \<and>
   (length args = 1 \<or> length args = 2 \<or> length args = 3 \<longrightarrow>
      (\<forall>h'. walk m env args h \<noteq> Some (Throw (Error ''invalid arguments''), h'))) \<and>
   (\<forall>t h'. walk m env [obj] h = Some (Ok t, h') \<longrightarrow>
      (\<exists>nm. get env h obj ''name'' = Ok nm \<and> get env h' t ''name'' = Ok nm)) \<and>
   (\<forall>t h'. walk m env [obj, name] h = Some (Ok t, h') \<longrightarrow> get env h' t ''name'' = Ok name)"
proof (intro conjI impI allI)
  assume "length args \<noteq> 1 \<and> length args \<noteq> 2 \<and> length args \<noteq> 3"
  then show "walk (Suc n) env args h = Some (Throw (Error ''invalid arguments''), h)"
    by (simp add: walk_body_def throw_def)
next
  fix h'
  assume ar: "length args = 1 \<or> length args = 2 \<or> length args = 3"
  show "walk m env args h \<noteq> Some (Throw (Error ''invalid arguments''), h')"
    using te_only_walk [OF ar, of m env] by (auto simp: te_only_def)
next
  fix t h'
  assume "walk m env [obj] h = Some (Ok t, h')"
  from walk_name [OF this] show "\<exists>nm. get env h obj ''name'' = Ok nm \<and> get env h' t ''name'' = Ok nm"
    by (auto simp: arg_def)
next
  fix t h'
  assume "walk m env [obj, name] h = Some (Ok t, h')"
  from walk_name [OF this] show "get env h' t ''name'' = Ok name"
    by (auto simp: arg_def)
qed

theorem walk_arity_witness:
  "walk (Suc 0) ex_env [] ex_heap = Some (Throw (Error ''invalid arguments''), ex_heap) \<and>
   walk (Suc 0) ex_env [Ref 1, JStr ''a'', Ref 8, Null] ex_heap =
     Some (Throw (Error ''invalid arguments''), ex_heap) \<and>
   walk 5 ex_env [Ref 1] ex_heap = Some (Ok (Ref 9), ex_walked) \<and>
   get ex_env ex_heap (Ref 1) ''name'' = Ok (JStr ''Outer'') \<and>
   get ex_env ex_walked (Ref 9) ''name'' = Ok (JStr ''Outer'')"
proof -
  have w: "walk 5 ex_env [Ref 1] ex_heap = Some (Ok (Ref 9), ex_walked)" by code_simp
  have g: "get ex_env ex_heap (Ref 1) ''name'' = Ok (JStr ''Outer'')" by code_simp
  have 1: "walk (Suc 0) ex_env [] ex_heap = Some (Throw (Error ''invalid arguments''), ex_heap)"
    using walk_arity [of "[]" 0 ex_env ex_heap] by simp
  have 2: "walk (Suc 0) ex_env [Ref 1, JStr ''a'', Ref 8, Null] ex_heap =
     Some (Throw (Error ''invalid arguments''), ex_heap)"
    using walk_arity [of "[Ref 1, JStr ''a'', Ref 8, Null]" 0 ex_env ex_heap] by simp
  have "\<exists>nm. get ex_env ex_heap (Ref 1) ''name'' = Ok nm \<and> get ex_env ex_walked (Ref 9) ''name'' = Ok nm"
    using walk_arity [of "[Ref 1]" 0 ex_env ex_heap 5 "Ref 1" Undefined] w by blast
  with g have 3: "get ex_env ex_walked (Ref 9) ''name'' = Ok (JStr ''Outer'')" by auto
  from 1 2 w g 3 show ?thesis by simp
qed

lemma wf_defE:
  assumes "wf_def d h v"
  obtains d' a p where "d = Suc d'" "v = Ref a" "a < length h" "getv_chain h a ''prototype'' = Ref p"
    "p < length h" "\<And>k. k \<in> set (own_keys (h ! a)) \<Longrightarrow> upper_lead k \<Longrightarrow> wf_def d' h (getv_chain h a k)"
proof (cases d)
  case 0
  with assms show ?thesis by simp
next
  case (Suc d')
  with assms obtain a where a: "v = Ref a" "a < length h"
    and pr: "(case getv_chain h a ''prototype'' of Ref p \<Rightarrow> p < length h | _ \<Rightarrow> False)"
    and ks: "list_all (\<lambda>k. upper_lead k \<longrightarrow> wf_def d' h (getv_chain h a k)) (own_keys (h ! a))"
    by (auto split: jsval.splits)
  from pr obtain p where p: "getv_chain h a ''prototype'' = Ref p" "p < length h"
    by (auto split: jsval.splits)
  from ks have "\<And>k. k \<in> set (own_keys (h ! a)) \<Longrightarrow> upper_lead k \<Longrightarrow> wf_def d' h (getv_chain h a k)"
    by (simp add: list_all_iff)
  with Suc a p show ?thesis by (rule that)
qed

lemma readable_Ref:
  assumes "getv_chain h a ''prototype'' = Ref p"
  shows "readable env h (Ref a) k"
  using assms by (simp add: readable_def)

text \<open>The second loop comes back when every nested call does.\<close>

lemma walk_objects_loop_total:
  assumes fr: "frame ''objects'' h0 ta h" and rc: "rec_frames rec" and a: "a < ta"
    and tot: "\<And>k H d. k \<in> set ks \<Longrightarrow> upper_lead k \<Longrightarrow> frame ''objects'' h0 ta H \<Longrightarrow> node H d \<Longrightarrow>
       length h0 \<le> d \<Longrightarrow> \<exists>r H'. rec [getv_chain h0 a k, JStr k, Ref d] H = Some (Ok r, H')"
  shows "\<exists>H. forEach (walk_object rec env (Ref a) (Ref ta)) ks h = Some (Ok (), H)"
  using fr tot
proof (induction ks arbitrary: h)
  case Nil
  show ?case by (simp add: ret_def)
next
  case (Cons k ks)
  have g: "get env h (Ref a) k = Ok (getv_chain h a k)" by simp
  have IH: "\<exists>H. forEach (walk_object rec env (Ref a) (Ref ta)) ks h' = Some (Ok (), H)"
    if "frame ''objects'' h0 ta h'" for h'
    using that Cons.prems(2) by (intro Cons.IH) auto
  show ?case
  proof (cases "upper_lead k")
    case False
    from walk_object_skip [OF g False, of rec "Ref ta"] IH [OF Cons.prems(1)]
    show ?thesis by (auto simp: bnd_def)
  next
    case True
    from walk_object_add [OF Cons.prems(1) g True, of rec]
    obtain H1 d where f1: "frame ''objects'' h0 ta H1" and n1: "node H1 d" and d0: "length h0 \<le> d"
      and nd: "own H1 ta ''objects'' \<noteq> Ref d"
      and e1: "walk_object rec env (Ref a) (Ref ta) k h =
                 bnd (rec [getv_chain h a k, JStr k, Ref d]) (\<lambda>_. ret ()) H1"
      by blast
    have ga: "getv_chain h a k = getv_chain h0 a k"
      by (rule getv_frame [OF Cons.prems(1) a])
    from Cons.prems(2) [OF _ True f1 n1 d0] obtain r H2 where
      r: "rec [getv_chain h a k, JStr k, Ref d] H1 = Some (Ok r, H2)"
      by (auto simp: ga)
    have dl: "d < length H1" using n1 by (simp add: node_def)
    have w: "walked H1 d H2" using rc r n1 by (auto simp: rec_frames_def)
    have f2: "frame ''objects'' h0 ta H2" by (rule frame_walked [OF f1 w d0 dl nd])
    from IH [OF f2] e1 r show ?thesis by (auto simp: bnd_def ret_def)
  qed
qed

lemma map_keys_frame_other:
  assumes f: "frame k H1 ta H" and kk: "k' \<noteq> k" and fv: "fresh_val n0 (length H1) (own H1 ta k')"
    and tn: "ta < n0"
  shows "map_keys k' H ta = map_keys k' H1 ta"
proof -
  have ow: "own H ta k' = own H1 ta k'"
    using f kk by (simp add: frame_def own_def)
  show ?thesis
  proof (cases "\<exists>m. own H1 ta k' = Ref m")
    case True
    then obtain m where m: "own H1 ta k' = Ref m" by blast
    with fv have ml: "m < length H1" by simp
    moreover have "m \<noteq> ta" using fv m tn by auto
    ultimately have "H ! m = H1 ! m" using f by (simp add: frame_def)
    then show ?thesis by (simp add: map_keys_def ow m)
  next
    case False
    then show ?thesis by (auto simp: map_keys_def ow split: jsval.splits)
  qed
qed

lemma walk_loops_total:
  assumes nd: "node H ta" and rc: "rec_frames rec" and a: "a < ta"
    and p: "getv_chain H a ''prototype'' = Ref p"
    and tot: "\<And>k Hx d. k \<in> set (own_keys (H ! a)) \<Longrightarrow> upper_lead k \<Longrightarrow>
        length H \<le> length Hx \<Longrightarrow> (\<forall>b<length H. b \<noteq> ta \<longrightarrow> Hx ! b = H ! b) \<Longrightarrow>
        node Hx d \<Longrightarrow> length H \<le> d \<Longrightarrow>
        \<exists>r H'. rec [getv_chain H a k, JStr k, Ref d] Hx = Some (Ok r, H')"
  shows "\<exists>r H'. walk_loops rec env (Ref a) (Ref ta) H = Some (Ok r, H')"
proof -
  have tl: "ta < length H" using nd by (simp add: node_def)
  have f0: "frame ''methods'' H ta H" using nd by (simp add: node_frame)
  have rd: "\<forall>h' k. frame ''methods'' H ta h' \<longrightarrow> readable env h' (Ref a) k"
  proof (intro allI impI)
    fix h' k assume "frame ''methods'' H ta h'"
    from getv_frame [OF this a] p show "readable env h' (Ref a) k"
      by (simp add: readable_Ref)
  qed
  from walk_methods_loop [OF f0, of env "Ref a" "own_keys (H ! p)"] rd
  obtain H1 where l1: "forEach (walk_method env (Ref a) (Ref ta)) (own_keys (H ! p)) H = Some (Ok (), H1)"
    and f1: "frame ''methods'' H ta H1"
    by blast
  have f2: "frame ''objects'' H1 ta H1" by (rule frame_objects_start [OF nd f1])
  have al: "a < length H" using a tl by simp
  have ae: "H1 ! a = H ! a" using f1 a al by (simp add: frame_def)
  have le1: "length H \<le> length H1" by (rule frame_le [OF f1])
  have "\<exists>H2. forEach (walk_object rec env (Ref a) (Ref ta)) (own_keys (H ! a)) H1 = Some (Ok (), H2)"
  proof (rule walk_objects_loop_total [OF f2 rc a])
    fix k Hx d
    assume k: "k \<in> set (own_keys (H ! a))" "upper_lead k"
      and fx: "frame ''objects'' H1 ta Hx" and nx: "node Hx d" and dx: "length H1 \<le> d"
    have "length H \<le> length Hx" using le1 frame_le [OF fx] by simp
    moreover have "\<forall>b<length H. b \<noteq> ta \<longrightarrow> Hx ! b = H ! b"
    proof (intro allI impI)
      fix b assume b: "b < length H" "b \<noteq> ta"
      then have "Hx ! b = H1 ! b" using fx le1 by (simp add: frame_def)
      also have "H1 ! b = H ! b" using f1 b by (simp add: frame_def)
      finally show "Hx ! b = H ! b" .
    qed
    moreover have "length H \<le> d" using dx le1 by simp
    ultimately have "\<exists>r H'. rec [getv_chain H a k, JStr k, Ref d] Hx = Some (Ok r, H')"
      using k nx by (intro tot)
    then show "\<exists>r H'. rec [getv_chain H1 a k, JStr k, Ref d] Hx = Some (Ok r, H')"
      by (simp add: getv_frame [OF f1 a])
  qed
  then obtain H2 where l2: "forEach (walk_object rec env (Ref a) (Ref ta)) (own_keys (H ! a)) H1 = Some (Ok (), H2)"
    by blast
  have k1: "object_keys env (Ref p) H = Some (Ok (if p < length H then own_keys (H ! p) else []), H)"
    by (rule object_keys_Ref)
  have k2: "object_keys env (Ref a) H1 = Some (Ok (own_keys (H ! a)), H1)"
    using object_keys_Ref [of env a H1] al le1 ae by simp
  show ?thesis
  proof (cases "p < length H")
    case True
    with p k1 l1 k2 l2 show ?thesis
      by (simp add: walk_loops_def bnd_def getp_def ret_def)
  next
    case False
    have f0': "forEach (walk_method env (Ref a) (Ref ta)) [] H = Some (Ok (), H)" by (simp add: ret_def)
    have f2': "frame ''objects'' H ta H" using nd by (simp add: node_frame)
    have "\<exists>H2. forEach (walk_object rec env (Ref a) (Ref ta)) (own_keys (H ! a)) H = Some (Ok (), H2)"
    proof (rule walk_objects_loop_total [OF f2' rc a])
      fix k Hx d
      assume k: "k \<in> set (own_keys (H ! a))" "upper_lead k"
        and fx: "frame ''objects'' H ta Hx" and nx: "node Hx d" and dx: "length H \<le> d"
      have "\<forall>b<length H. b \<noteq> ta \<longrightarrow> Hx ! b = H ! b" using fx by (simp add: frame_def)
      with k nx dx frame_le [OF fx]
      show "\<exists>r H'. rec [getv_chain H a k, JStr k, Ref d] Hx = Some (Ok r, H')"
        by (intro tot)
    qed
    then obtain H2' where "forEach (walk_object rec env (Ref a) (Ref ta)) (own_keys (H ! a)) H = Some (Ok (), H2')"
      by blast
    moreover have "object_keys env (Ref a) H = Some (Ok (own_keys (H ! a)), H)"
      using object_keys_Ref [of env a H] al by simp
    ultimately show ?thesis
      using False p k1 f0' by (simp add: walk_loops_def bnd_def getp_def ret_def)
  qed
qed

lemma walk_loops_wf:
  assumes "wf_def d h0 v" and "d \<le> Suc n" and "length h0 \<le> length H" and "\<forall>b<length h0. H ! b = h0 ! b"
    and "node H ta" and "length h0 \<le> ta"
  shows "\<exists>r H'. walk_loops (walk n env) env v (Ref ta) H = Some (Ok r, H')"
  using assms
proof (induction n arbitrary: d v H ta)
  case 0
  from wf_defE [OF "0.prems"(1)] obtain d' a p where
    d: "d = Suc d'" and v: "v = Ref a" and a: "a < length h0"
    and p: "getv_chain h0 a ''prototype'' = Ref p"
    and nested: "\<And>k. k \<in> set (own_keys (h0 ! a)) \<Longrightarrow> upper_lead k \<Longrightarrow> wf_def d' h0 (getv_chain h0 a k)"
    by blast
  have d': "d' = 0" using d "0.prems"(2) by simp
  have ge: "getv_chain H a k = getv_chain h0 a k" for k
    using a "0.prems"(3,4) by (intro getv_below) simp_all
  have ae: "H ! a = h0 ! a" using a "0.prems"(4) by simp
  show ?case
    unfolding v
  proof (rule walk_loops_total [OF "0.prems"(5) walk_frames])
    show "a < ta" using a "0.prems"(6) by simp
    show "getv_chain H a ''prototype'' = Ref p" using p by (simp add: ge)
  next
    fix k Hx dd
    assume "k \<in> set (own_keys (H ! a))" "upper_lead k"
    with nested [of k] d' ae have False by simp
    then show "\<exists>r H'. walk 0 env [getv_chain H a k, JStr k, Ref dd] Hx = Some (Ok r, H')" ..
  qed
next
  case (Suc n)
  from wf_defE [OF Suc.prems(1)] obtain d' a p where
    d: "d = Suc d'" and v: "v = Ref a" and a: "a < length h0"
    and p: "getv_chain h0 a ''prototype'' = Ref p"
    and nested: "\<And>k. k \<in> set (own_keys (h0 ! a)) \<Longrightarrow> upper_lead k \<Longrightarrow> wf_def d' h0 (getv_chain h0 a k)"
    by blast
  have d': "d' \<le> Suc n" using d Suc.prems(2) by simp
  have ge: "getv_chain H a k = getv_chain h0 a k" for k
    using a Suc.prems(3,4) by (intro getv_below) simp_all
  have ae: "H ! a = h0 ! a" using a Suc.prems(4) by simp
  show ?case
    unfolding v
  proof (rule walk_loops_total [OF Suc.prems(5) walk_frames])
    show "a < ta" using a Suc.prems(6) by simp
    show "getv_chain H a ''prototype'' = Ref p" using p by (simp add: ge)
  next
    fix k Hx dd
    assume k: "k \<in> set (own_keys (H ! a))" "upper_lead k"
      and lx: "length H \<le> length Hx" and ex: "\<forall>b<length H. b \<noteq> ta \<longrightarrow> Hx ! b = H ! b"
      and nx: "node Hx dd" and dx: "length H \<le> dd"
    have w: "wf_def d' h0 (getv_chain h0 a k)" using nested k ae by simp
    have "\<forall>b<length h0. Hx ! b = h0 ! b"
      using ex Suc.prems(3,4,6) by auto
    moreover have "length h0 \<le> length Hx" using lx Suc.prems(3) by simp
    moreover have "length h0 \<le> dd" using dx Suc.prems(3) by simp
    ultimately have "\<exists>r H'. walk_loops (walk n env) env (getv_chain h0 a k) (Ref dd) Hx = Some (Ok r, H')"
      using w d' nx by (intro Suc.IH)
    then show "\<exists>r H'. walk (Suc n) env [getv_chain H a k, JStr k, Ref dd] Hx = Some (Ok r, H')"
      by (simp add: walk_body_def arg_def ge)
  qed
qed

text \<open>A call with one or two arguments on a well-formed definition: the whole result.\<close>

lemma walk_wf_run:
  assumes wf: "wf_def d h obj" and dn: "d \<le> Suc n" and ar: "args = [obj] \<or> args = [obj, name]"
  shows "\<exists>h' a p. walk (Suc n) env args h = Some (Ok (Ref (length h)), h') \<and>
           obj = Ref a \<and> getv_chain h a ''prototype'' = Ref p \<and>
           length h < length h' \<and> proto (h' ! length h) = Null \<and>
           map_keys ''methods'' h' (length h) = {k \<in> set (own_keys (h ! p)). lower_lead k} \<and>
           map_keys ''objects'' h' (length h) = {k \<in> set (own_keys (h ! a)). upper_lead k} \<and>
           ((\<forall>k\<in>set (own_keys (h ! p)). \<not> lower_lead k) \<longrightarrow>
              map_of (props (h' ! length h)) ''methods'' = None)"
proof -
  from wf_defE [OF wf] obtain d' a p where
    v: "obj = Ref a" and a: "a < length h" and p: "getv_chain h a ''prototype'' = Ref p"
    and pl: "p < length h"
    by blast
  define nm where "nm = (if args = [obj] then getv_chain h a ''name'' else name)"
  let ?T = "\<lparr>props = [(''name'', nm, True)], proto = Null, kind = Plain\<rparr>"
  let ?H = "h @ [?T]"
  let ?ta = "length h"
  have nd: "node ?H ?ta" by (rule node_fresh)
  have body: "walk (Suc n) env args h = walk_loops (walk n env) env obj (Ref ?ta) ?H"
    using ar v by (auto simp: walk_body_def arg_def bnd_def getp_def literal_def alloc_def nm_def)
  have "\<exists>r H'. walk_loops (walk n env) env obj (Ref ?ta) ?H = Some (Ok r, H')"
    by (rule walk_loops_wf [OF wf dn _ _ nd]) (simp_all add: nth_append)
  then obtain r H' where run: "walk_loops (walk n env) env obj (Ref ?ta) ?H = Some (Ok r, H')"
    by blast
  from walk_loops_run [OF nd walk_frames run] obtain pr ks H1 ks' where
    w: "walked ?H ?ta H'" and r: "r = Ref ?ta"
    and gp: "get env ?H obj ''prototype'' = Ok pr"
    and kp: "object_keys env pr ?H = Some (Ok ks, ?H)"
    and f1: "frame ''methods'' ?H ?ta H1"
    and ko: "object_keys env obj H1 = Some (Ok ks', H1)"
    and f2: "frame ''objects'' H1 ?ta H'"
    and m1: "map_keys ''methods'' H1 ?ta = {k \<in> set ks. lower_lead k}"
    and m2: "map_keys ''objects'' H' ?ta = {k \<in> set ks'. upper_lead k}"
    and s1: "(\<forall>k\<in>set ks. \<not> lower_lead k) \<longrightarrow> H1 = ?H"
    by blast
  have pr: "pr = Ref p" using gp v a p by (simp add: getv_append)
  have ks: "ks = own_keys (h ! p)"
    using kp pl by (simp add: pr object_keys_def nth_append)
  have "H1 ! a = ?H ! a" using f1 a by (simp add: frame_def)
  then have a1: "H1 ! a = h ! a" using a by (simp add: nth_append)
  have "a < length H1" using a frame_le [OF f1] by simp
  then have ks': "ks' = own_keys (h ! a)"
    using ko v a1 by (simp add: object_keys_def)
  have mm: "map_keys ''methods'' H' ?ta = map_keys ''methods'' H1 ?ta"
    by (rule map_keys_frame_other [OF f2 _ frame_fresh [OF f1]]) simp_all
  have abs: "map_of (props (H' ! ?ta)) ''methods'' = None" if "\<forall>k\<in>set ks. \<not> lower_lead k"
  proof -
    from s1 that have "H1 = ?H" by simp
    then have "map_of (props (H1 ! ?ta)) ''methods'' = None" by simp
    moreover have "map_of (props (H' ! ?ta)) ''methods'' = map_of (props (H1 ! ?ta)) ''methods''"
      using f2 by (simp add: frame_def)
    ultimately show ?thesis by simp
  qed
  have "length h < length H'" using w by (simp add: walked_def)
  moreover have "proto (H' ! ?ta) = Null" using f2 by (simp add: frame_def)
  ultimately show ?thesis
    using body run r v p m1 m2 mm ks ks' abs by auto
qed

text \<open>
  C3. For a well-formed definition and a call with one or two arguments, at a call depth
  that covers the nesting, \<^verbatim>\<open>walk\<close> returns a new tree whose \<^verbatim>\<open>methods\<close> has exactly
  the enumerable keys of the prototype that start with a letter \<^verbatim>\<open>a-z\<close>, and whose
  \<^verbatim>\<open>objects\<close> has exactly the enumerable keys of the definition itself that start with a
  letter \<^verbatim>\<open>A-Z\<close>.
\<close>

theorem walk_keys:
  assumes "wf_def d h obj" and "d \<le> Suc n" and "args = [obj] \<or> args = [obj, name]"
  shows "\<exists>h' a p. walk (Suc n) env args h = Some (Ok (Ref (length h)), h') \<and>
           obj = Ref a \<and> getv_chain h a ''prototype'' = Ref p \<and>
           map_keys ''methods'' h' (length h) = {k \<in> set (own_keys (h ! p)). lower_lead k} \<and>
           map_keys ''objects'' h' (length h) = {k \<in> set (own_keys (h ! a)). upper_lead k}"
  using walk_wf_run [OF assms, of env] by blast

theorem walk_keys_witness:
  "walk (Suc 4) ex_env [Ref 1] ex_heap = Some (Ok (Ref 9), ex_walked) \<and>
   map_keys ''methods'' ex_walked 9 = {''list''} \<and>
   map_keys ''objects'' ex_walked 9 = {''Inner''}"
proof -
  have wf: "wf_def 2 ex_heap (Ref 1)" by code_simp
  have w: "walk (Suc 4) ex_env [Ref 1] ex_heap = Some (Ok (Ref 9), ex_walked)" by code_simp
  have p: "getv_chain ex_heap 1 ''prototype'' = Ref 0" by code_simp
  have l: "length ex_heap = 9" by code_simp
  have k1: "{k \<in> set (own_keys (ex_heap ! 0)). lower_lead k} = {''list''}"
    by (auto simp: ex_heap_def own_keys_def lower_lead_def lower_char_def)
  have k2: "{k \<in> set (own_keys (ex_heap ! 1)). upper_lead k} = {''Inner''}"
    by (auto simp: ex_heap_def own_keys_def upper_lead_def upper_char_def)
  from walk_keys [of 2 ex_heap "Ref 1" 4 "[Ref 1]" Undefined ex_env] wf
  obtain h' a pp where "walk (Suc 4) ex_env [Ref 1] ex_heap = Some (Ok (Ref (length ex_heap)), h')"
    "Ref 1 = Ref a" "getv_chain ex_heap a ''prototype'' = Ref pp"
    "map_keys ''methods'' h' (length ex_heap) = {k \<in> set (own_keys (ex_heap ! pp)). lower_lead k}"
    "map_keys ''objects'' h' (length ex_heap) = {k \<in> set (own_keys (ex_heap ! a)). upper_lead k}"
    by auto
  with w p l k1 k2 show ?thesis by auto
qed

text \<open>
  C10. When no enumerable key of the prototype starts with a letter \<^verbatim>\<open>a-z\<close>, the tree that
  \<^verbatim>\<open>walk\<close> returns has no \<^verbatim>\<open>methods\<close> property at all, and \<^verbatim>\<open>promisify\<close> on an
  instance of that definition throws a \<^verbatim>\<open>TypeError\<close>, from \<^verbatim>\<open>Object.keys(tree.methods)\<close>.
\<close>

theorem no_methods_type_error:
  assumes wf: "wf_def d h ctor" and dn: "d \<le> Suc n"
    and tr: "truthy client" and gc: "get env h client ''constructor'' = Ok ctor"
    and ct: "ctor = Ref a" and pr: "getv_chain h a ''prototype'' = Ref p"
    and none: "\<forall>k\<in>set (own_keys (h ! p)). \<not> lower_lead k"
  shows "\<exists>h'. walk (Suc n) env [ctor] h = Some (Ok (Ref (length h)), h') \<and>
           map_of (props (h' ! length h)) ''methods'' = None \<and>
           promisify (Suc n) env client wrapCallback h = Some (Throw TypeError, h')"
proof -
  from walk_wf_run [OF wf dn, of "[ctor]" Undefined env] ct pr none
  obtain h' where w: "walk (Suc n) env [ctor] h = Some (Ok (Ref (length h)), h')"
    and l: "length h < length h'" and pn: "proto (h' ! length h) = Null"
    and ab: "map_of (props (h' ! length h)) ''methods'' = None"
    by auto
  have "getv_chain h' (length h) ''methods'' = Undefined"
    using l pn ab by (simp add: getv_lit own_def)
  then have "patch (Suc n) wc env client (Ref (length h)) h' = Some (Throw TypeError, h')" for wc
    by (simp add: patch_body_def bnd_def getp_def object_keys_def)
  with w tr gc ab show ?thesis
    by (simp add: promisify_def bnd_def getp_def)
qed

theorem no_methods_type_error_witness:
  "walk (Suc 2) ex_env [Ref 1] ex_bare =
     Some (Ok (Ref 4), ex_bare @ [\<lparr>props = [(''name'', JStr ''Bare'', True)], proto = Null, kind = Plain\<rparr>]) \<and>
   promisify (Suc 2) ex_env (Ref 3) Undefined ex_bare =
     Some (Throw TypeError, ex_bare @ [\<lparr>props = [(''name'', JStr ''Bare'', True)], proto = Null, kind = Plain\<rparr>])"
proof -
  have wf: "wf_def 1 ex_bare (Ref 1)" by code_simp
  have tr: "truthy (Ref 3)" by simp
  have gc: "get ex_env ex_bare (Ref 3) ''constructor'' = Ok (Ref 1)" by code_simp
  have pr: "getv_chain ex_bare 1 ''prototype'' = Ref 0" by code_simp
  have none: "\<forall>k\<in>set (own_keys (ex_bare ! 0)). \<not> lower_lead k"
    by (simp add: ex_bare_def own_keys_def lower_lead_def lower_char_def)
  have w: "walk (Suc 2) ex_env [Ref 1] ex_bare =
     Some (Ok (Ref 4), ex_bare @ [\<lparr>props = [(''name'', JStr ''Bare'', True)], proto = Null, kind = Plain\<rparr>])"
    by code_simp
  from no_methods_type_error [OF wf _ tr gc refl pr none, of 2 Undefined]
  obtain h' where "walk (Suc 2) ex_env [Ref 1] ex_bare = Some (Ok (Ref (length ex_bare)), h')"
    "promisify (Suc 2) ex_env (Ref 3) Undefined ex_bare = Some (Throw TypeError, h')"
    by auto
  with w show ?thesis by simp
qed

text \<open>
  C1 fails as stated: when \<^verbatim>\<open>outer.inner\<close> is missing, \<^verbatim>\<open>promisify(outer)\<close> throws a
  \<^verbatim>\<open>TypeError\<close>.
\<close>

theorem absent_accessor_counterexample:
  "get ex_env ex_missing (Ref 7) (toLowerCase ''Inner'') = Ok Undefined \<and>
   promisify 5 ex_env (Ref 7) Undefined ex_missing = Some (Throw TypeError, ex_missing_patched)"
  by code_simp

lemma patch_absent:
  assumes cl: "client = Undefined \<or> client = Null"
    and ms: "get env h tree ''methods'' = Ok ms"
    and ks: "object_keys env ms h \<noteq> Some (Ok [], h)"
  shows "patch (Suc n) wc env client tree h = Some (Throw TypeError, h)"
proof (cases "object_keys env ms h")
  case None
  then show ?thesis by (simp add: object_keys_def split: jsval.splits)
next
  case (Some rh)
  obtain r h1 where rh: "rh = (r, h1)" by (cases rh)
  have h1: "h1 = h" using Some rh by (auto dest: object_keys_same)
  show ?thesis
  proof (cases r)
    case (Throw e)
    have "e = TypeError"
      using te_only_object_keys [of env ms] Some rh Throw by (auto simp: te_only_def)
    with ms Some rh h1 Throw show ?thesis
      by (simp add: patch_body_def bnd_def getp_def)
  next
    case (Ok keys)
    with ks Some rh h1 obtain k rest where keys: "keys = k # rest"
      by (cases keys) auto
    have gc: "get env h client key = Throw TypeError" for key
      using cl by (auto simp: get_def)
    have "patch_method wc env client tree k h = Some (Throw TypeError, h)"
    proof (cases "get env h ms k")
      case (Throw e)
      with ms get_throw [OF Throw] show ?thesis
        by (simp add: patch_method_def bnd_def getp_def)
    next
      case m: (Ok meth)
      show ?thesis
      proof (cases "get env h meth ''name''")
        case (Throw e)
        with ms m get_throw [OF Throw] show ?thesis
          by (simp add: patch_method_def bnd_def getp_def)
      next
        case (Ok name)
        with ms m gc show ?thesis
          by (simp add: patch_method_def bnd_def getp_def)
      qed
    qed
    then have "forEach (patch_method wc env client tree) keys h = Some (Throw TypeError, h)"
      by (simp add: keys bnd_def)
    with ms Some rh h1 Ok show ?thesis
      by (simp add: patch_body_def bnd_def getp_def)
  qed
qed

text \<open>
  C1, as the code has it. For a nested capability \<open>key\<close> whose accessor
  \<^verbatim>\<open>client[key.toLowerCase()]\<close> is \<^verbatim>\<open>undefined\<close> or \<^verbatim>\<open>null\<close>, the recursive call of
  \<^verbatim>\<open>patch\<close> throws a \<^verbatim>\<open>TypeError\<close> and so does the loop over \<^verbatim>\<open>tree.objects\<close>, unless the
  \<^verbatim>\<open>methods\<close> of the subtree is a map without any key; the store stays as it was at that
  point, with the wrappers already installed.
\<close>

theorem patch_object_absent_accessor:
  assumes "get env h client (toLowerCase key) = Ok sub"
    and "sub = Undefined \<or> sub = Null"
    and "get env h tree ''objects'' = Ok os"
    and "get env h os key = Ok subtree"
    and "get env h subtree ''methods'' = Ok ms"
    and "object_keys env ms h \<noteq> Some (Ok [], h)"
  shows "patch_object (patch (Suc n) wc env) env client tree key h = Some (Throw TypeError, h) \<and>
         forEach (patch_object (patch (Suc n) wc env) env client tree) (key # keys) h =
           Some (Throw TypeError, h)"
proof -
  have "patch (Suc n) wc env sub subtree h = Some (Throw TypeError, h)"
    by (rule patch_absent [OF assms(2,5,6)])
  with assms(1,3,4)
  have "patch_object (patch (Suc n) wc env) env client tree key h = Some (Throw TypeError, h)"
    by (simp add: patch_object_def bnd_def getp_def)
  then show ?thesis by (simp add: bnd_def)
qed

theorem patch_object_absent_accessor_witness:
  "patch_object (patch (Suc 1) FromCallback ex_env) ex_env (Ref 7) (Ref 9) ''Inner'' ex_missing_walked =
     Some (Throw TypeError, ex_missing_walked)"
proof -
  have 1: "get ex_env ex_missing_walked (Ref 7) (toLowerCase ''Inner'') = Ok Undefined" by code_simp
  have 3: "get ex_env ex_missing_walked (Ref 9) ''objects'' = Ok (Ref 13)" by code_simp
  have 4: "get ex_env ex_missing_walked (Ref 13) ''Inner'' = Ok (Ref 14)" by code_simp
  have 5: "get ex_env ex_missing_walked (Ref 14) ''methods'' = Ok (Ref 15)" by code_simp
  have 6: "object_keys ex_env (Ref 15) ex_missing_walked \<noteq> Some (Ok [], ex_missing_walked)" by code_simp
  from patch_object_absent_accessor [OF 1 _ 3 4 5 6, of 1 FromCallback "[]"]
  show ?thesis by simp
qed

end
